theory Spec2Isabelle
  imports Complex_Main
begin

section \<open>Python floats\<close>

text \<open>
  The tracker computes with Python floats (IEEE 754 binary64). A float is modelled by the
  real number it denotes; every arithmetic operation computes the exact result and rounds
  it to the nearest number with a 53-bit significand, ties to even. The exponent range is
  not bounded: overflow to infinity, subnormal numbers and NaN are outside the model
  (voltages, currents and times of the instrument are far from those ranges).
  Comparisons of floats are exact, so they are the comparisons of the reals.
\<close>

type_synonym float = real

text \<open>\<open>scale_down x\<close> is \<open>\<lfloor>log\<^sub>2 x\<rfloor>\<close> for \<open>1 \<le> x\<close>, \<open>scale_up x\<close> is the same for
  \<open>0 < x < 1\<close>: the exponent of the leading bit.\<close>

function scale_down :: "real \<Rightarrow> int" where
  "scale_down x = (if 2 \<le> x then scale_down (x / 2) + 1 else 0)"
  by pat_completeness auto
termination
proof (relation "measure (\<lambda>x. nat \<lfloor>x\<rfloor>)")
  show "wf (measure (\<lambda>x::real. nat \<lfloor>x\<rfloor>))" by simp
next
  fix x :: real
  assume a: "2 \<le> x"
  then have "x / 2 \<le> x - 1" by simp
  then have "\<lfloor>x / 2\<rfloor> \<le> \<lfloor>x - 1\<rfloor>" by (rule floor_mono)
  then have "\<lfloor>x / 2\<rfloor> < \<lfloor>x\<rfloor>" by simp
  moreover have "0 < \<lfloor>x\<rfloor>" using a by simp
  ultimately show "(x / 2, x) \<in> measure (\<lambda>x. nat \<lfloor>x\<rfloor>)" by simp
qed

function scale_up :: "real \<Rightarrow> int" where
  "scale_up x = (if 0 < x \<and> x < 1 then scale_up (2 * x) - 1 else 0)"
  by pat_completeness auto
termination
proof (relation "measure (\<lambda>x. nat \<lceil>1 / x\<rceil>)")
  show "wf (measure (\<lambda>x::real. nat \<lceil>1 / x\<rceil>))" by simp
next
  fix x :: real
  assume a: "0 < x \<and> x < 1"
  define y where "y = 1 / x"
  have y: "1 < y" using a by (simp add: y_def)
  then have "2 \<le> \<lceil>y\<rceil>" by linarith
  then have "real_of_int \<lceil>y\<rceil> / 2 \<le> real_of_int (\<lceil>y\<rceil> - 1)" by simp
  moreover have "y / 2 \<le> real_of_int \<lceil>y\<rceil> / 2" by simp
  ultimately have "y / 2 \<le> real_of_int (\<lceil>y\<rceil> - 1)" by linarith
  then have "\<lceil>y / 2\<rceil> \<le> \<lceil>y\<rceil> - 1" by (simp only: ceiling_le_iff)
  then have h: "\<lceil>(1 / x) / 2\<rceil> < \<lceil>1 / x\<rceil>" by (simp add: y_def)
  have eq: "1 / (2 * x) = (1 / x) / 2" by simp
  have lt: "\<lceil>1 / (2 * x)\<rceil> < \<lceil>1 / x\<rceil>" by (subst eq) (rule h)
  have pos: "0 < \<lceil>1 / x\<rceil>" using a by simp
  show "(2 * x, x) \<in> measure (\<lambda>x. nat \<lceil>1 / x\<rceil>)" using lt pos by simp
qed

declare scale_down.simps [simp del] scale_up.simps [simp del]

definition exponent :: "real \<Rightarrow> int" where
  "exponent x = (if 1 \<le> x then scale_down x else scale_up x)"

definition round_half_even :: "real \<Rightarrow> int" where
  "round_half_even x =
     (let f = \<lfloor>x\<rfloor>; r = x - of_int f
      in if r < 1 / 2 then f else if 1 / 2 < r then f + 1 else if even f then f else f + 1)"

definition pow2 :: "int \<Rightarrow> real" where
  "pow2 e = (if 0 \<le> e then 2 ^ nat e else 1 / 2 ^ nat (- e))"

definition rnd :: "real \<Rightarrow> float" where
  "rnd x = (if x = 0 then 0
            else let e = exponent \<bar>x\<bar> - 52
                 in of_int (round_half_even (x / pow2 e)) * pow2 e)"

definition fadd :: "float \<Rightarrow> float \<Rightarrow> float" where
  "fadd x y = rnd (x + y)"

definition fsub :: "float \<Rightarrow> float \<Rightarrow> float" where
  "fsub x y = rnd (x - y)"

definition fmul :: "float \<Rightarrow> float \<Rightarrow> float" where
  "fmul x y = rnd (x * y)"

text \<open>Division by a zero float raises \<open>ZeroDivisionError\<close> in Python; the callers test
  the divisor before they use \<open>fdiv\<close>.\<close>

definition fdiv :: "float \<Rightarrow> float \<Rightarrow> float" where
  "fdiv x y = rnd (x / y)"

definition fabs :: "float \<Rightarrow> float" where
  "fabs x = \<bar>x\<bar>"

text \<open>A decimal literal of the source, such as \<open>0.04\<close>, is the float nearest to it.\<close>

definition lit :: "real \<Rightarrow> float" where
  "lit x = rnd x"

section \<open>Exceptions\<close>

text \<open>\<open>sys.exit(n)\<close> raises \<open>SystemExit n\<close>; a \<open>SystemExit\<close> that reaches the top level
  ends the process with status \<open>n\<close>, any other exception that reaches it ends the
  process with a traceback and a non-zero status.\<close>

datatype exn =
    SystemExit int
  | KeyboardInterrupt
  | VisaIOError
  | DaqError
  | UnboundLocalError
  | ValueError
  | IndexError
  | ZeroDivisionError

section \<open>The instrument, the shutter and the session\<close>

text \<open>Commands written to the Keithley 2400. A command with a formatted number keeps the
  number and names the format in its constructor.\<close>

datatype scpi =
    Fixed string
  | OutputOn
  | OutputOff
  | TriggerCount nat
  | SweepPoints nat
  | VoltageStart4f float
  | VoltageRange4f float
  | CurrentProtection6f float
  | CurrentRange6f float
  | SourceVoltage float
  | SourceVoltage4f float

record k2400 =
  opened :: nat
  written :: "scpi list"
  k_closed :: nat

record daq_task =
  channels :: "string list"
  started :: bool
  line :: bool
  stopped :: nat
  t_closed :: nat

text \<open>What one call of \<open>query_ascii_values\<close> does: it returns the values of the response,
  fails with an I/O error, or is interrupted by the user (Ctrl-C) while it blocks.\<close>

datatype event = Response "float list" | IOFail | Interrupt

fun query_ascii_values :: "event \<Rightarrow> exn + float list" where
  "query_ascii_values (Response xs) = Inr xs"
| "query_ascii_values IOFail = Inl VisaIOError"
| "query_ascii_values Interrupt = Inl KeyboardInterrupt"

text \<open>\<open>a, b, c = xs\<close> raises \<open>ValueError\<close> unless \<open>xs\<close> has three elements.\<close>

fun unpack3 :: "float list \<Rightarrow> exn + (float \<times> float \<times> float)" where
  "unpack3 [a, b, c] = Inr (a, b, c)"
| "unpack3 _ = Inl ValueError"

definition read3 :: "event \<Rightarrow> exn + (float \<times> float \<times> float)" where
  "read3 e = (case query_ascii_values e of Inl x \<Rightarrow> Inl x | Inr xs \<Rightarrow> unpack3 xs)"

text \<open>The attributes of \<open>MaximumPowerPointTracker\<close>, the parsed arguments, and the two
  text sinks. A line of the log file is the triple that the source formats into it;
  every \<open>print\<close> of the source flushes, so the lines of \<open>log_file\<close> are on disk.\<close>

record mppt =
  total_tracking_time :: int
  device_area :: float
  shutterOut :: string
  K2400 :: k2400
  task :: "daq_task option"
  start_time :: float
  v_step :: float
  Voc :: float
  Isc :: float
  Vmpp :: float
  log_file :: "(float \<times> float \<times> float) list"
  log_closed :: bool
  v_data :: "float list"
  i_data :: "float list"
  t_data :: "float list"
  efficiencies :: "float list"
  console :: "string list"

definition write_to_console :: "mppt \<Rightarrow> string \<Rightarrow> mppt" where
  "write_to_console s msg = s\<lparr>console := console s @ [msg]\<rparr>"

definition write_data_to_file :: "mppt \<Rightarrow> float \<times> float \<times> float \<Rightarrow> mppt" where
  "write_data_to_file s rec = s\<lparr>log_file := log_file s @ [rec]\<rparr>"

definition kwrite :: "mppt \<Rightarrow> scpi \<Rightarrow> mppt" where
  "kwrite s c = s\<lparr>K2400 := (K2400 s)\<lparr>written := written (K2400 s) @ [c]\<rparr>\<rparr>"

definition kwrites :: "mppt \<Rightarrow> scpi list \<Rightarrow> mppt" where
  "kwrites s cs = foldl kwrite s cs"

section \<open>Shutdown and the runtime check\<close>

text \<open>\<open>shutdown\<close> always ends in \<open>sys.exit(0)\<close>; it returns the exception and the state
  it leaves.\<close>

definition shutdown :: "mppt \<Rightarrow> exn \<times> mppt" where
  "shutdown s =
     (let s1 = (case task s of
                  None \<Rightarrow> s
                | Some t \<Rightarrow> s\<lparr>task := Some (t\<lparr>line := True, started := False,
                                              stopped := stopped t + 1,
                                              t_closed := t_closed t + 1\<rparr>)\<rparr>);
          s2 = s1\<lparr>log_closed := True\<rparr>;
          s3 = write_to_console s2
                 ''Keithley and USB6501 shutdown completed. Log file closed. Exiting.''
      in (SystemExit 0, s3))"

definition check_runtime :: "mppt \<Rightarrow> float \<Rightarrow> (exn \<times> mppt) + mppt" where
  "check_runtime s tx =
     (let t_measurement = fsub tx (start_time s)
      in if t_measurement > of_int (total_tracking_time s) then Inl (shutdown s) else Inr s)"

section \<open>Recording a sample\<close>

definition calculate_eff :: "mppt \<Rightarrow> float \<Rightarrow> float \<Rightarrow> float" where
  "calculate_eff s v i = (let j = fdiv (fmul i 1000) (device_area s) in fabs (fmul v j))"

definition update_plot :: "mppt \<Rightarrow> float \<Rightarrow> float \<Rightarrow> float \<Rightarrow> (exn \<times> mppt) + mppt" where
  "update_plot s v i tx =
     (let s1 = s\<lparr>t_data := t_data s @ [fsub tx (start_time s)]\<rparr>;
          s2 = s1\<lparr>v_data := v_data s1 @ [v]\<rparr>
      in if device_area s2 = 0 then Inl (ZeroDivisionError, s2)
         else let s3 = s2\<lparr>i_data := i_data s2 @ [fabs (fdiv (fmul i 1000) (device_area s2))]\<rparr>
              in Inr (s3\<lparr>efficiencies := efficiencies s3 @ [calculate_eff s3 v i]\<rparr>))"

section \<open>The walk-in loop\<close>

text \<open>One iteration of \<open>while V_set < self.Vmpp\<close>: the source is set, a reading is taken
  and plotted, \<open>V_set\<close> is stepped, the runtime is checked, and the record is logged.
  It returns the session and the locals \<open>V_set\<close>, \<open>v\<close>, \<open>i\<close>.\<close>

definition walk_cycle ::
  "mppt \<Rightarrow> float \<Rightarrow> event \<Rightarrow> (exn \<times> mppt) + (mppt \<times> float \<times> float \<times> float)" where
  "walk_cycle s V_set e =
     (let s1 = kwrite s (SourceVoltage V_set)
      in case read3 e of
           Inl x \<Rightarrow> Inl (x, s1)
         | Inr (v, i, tx) \<Rightarrow>
             (case update_plot s1 v i tx of
                Inl r \<Rightarrow> Inl r
              | Inr s2 \<Rightarrow>
                  (let V_set' = fadd V_set (v_step s2)
                   in case check_runtime s2 tx of
                        Inl r \<Rightarrow> Inl r
                      | Inr s3 \<Rightarrow>
                          Inr (write_data_to_file s3 (fsub tx (start_time s3), v, i),
                               V_set', v, i))))"

text \<open>The state of the program when the instrument has answered every query of a finite
  script and the program blocks in the next \<open>READ?\<close> (the commands before that query are
  written), or when an exception left the method.\<close>

datatype outcome =
    Raised exn mppt
  | AwaitStart mppt
  | AwaitWalk mppt float float float
  | AwaitTrack mppt float int

text \<open>The walk-in loop. No \<open>try\<close> surrounds it, so every exception of a cycle leaves the
  method. When the condition fails the loop is left with the session, the last \<open>v\<close> and
  \<open>i\<close>, and the events not yet consumed.\<close>

fun walk_in ::
  "mppt \<Rightarrow> float \<Rightarrow> float \<Rightarrow> float \<Rightarrow> event list
     \<Rightarrow> outcome + (mppt \<times> float \<times> float \<times> event list)" where
  "walk_in s V_set v i [] =
     (if V_set < Vmpp s then Inl (AwaitWalk (kwrite s (SourceVoltage V_set)) V_set v i)
      else Inr (s, v, i, []))"
| "walk_in s V_set v i (e # es) =
     (if V_set < Vmpp s then
        (case walk_cycle s V_set e of
           Inl (x, s') \<Rightarrow> Inl (Raised x s')
         | Inr (s', V_set', v', i') \<Rightarrow> walk_in s' V_set' v' i' es)
      else Inr (s, v, i, e # es))"

section \<open>The perturb-and-observe loop\<close>

text \<open>Lines 389 to 395: the comparison with the previous power, the step of \<open>Vmpp\<close>, and
  the new \<open>previous_power\<close> (\<open>pw\<close> is the local \<open>power\<close>). \<open>direction\<close> is a Python
  int; \<open>direction * self.v_step\<close> converts it to a float and multiplies.\<close>

definition perturb_observe :: "mppt \<Rightarrow> float \<Rightarrow> int \<Rightarrow> float \<Rightarrow> mppt \<times> float \<times> int" where
  "perturb_observe s previous_power direction pw =
     (if pw > previous_power then
        (s\<lparr>Vmpp := fadd (Vmpp s) (fmul (of_int direction) (v_step s))\<rparr>, pw, direction)
      else
        (let direction' = direction * (- 1)
         in (s\<lparr>Vmpp := fadd (Vmpp s) (fmul (of_int direction') (v_step s))\<rparr>,
             pw, direction')))"

text \<open>The body of \<open>while True\<close>, lines 383 to 395.\<close>

definition track_cycle ::
  "mppt \<Rightarrow> float \<Rightarrow> int \<Rightarrow> event \<Rightarrow> (exn \<times> mppt) + (mppt \<times> float \<times> int)" where
  "track_cycle s previous_power direction e =
     (let s1 = kwrite s (SourceVoltage4f (Vmpp s))
      in case read3 e of
           Inl x \<Rightarrow> Inl (x, s1)
         | Inr (v, i, tx) \<Rightarrow>
             (let pw = fabs (fmul v i)
              in case check_runtime s1 tx of
                   Inl r \<Rightarrow> Inl r
                 | Inr s2 \<Rightarrow>
                     (case update_plot s2 v i tx of
                        Inl r \<Rightarrow> Inl r
                      | Inr s3 \<Rightarrow> Inr (perturb_observe s3 previous_power direction pw))))"

text \<open>\<open>try: while True: ... except KeyboardInterrupt: self.shutdown()\<close>. The handler
  takes a \<open>KeyboardInterrupt\<close> raised anywhere in the loop; every other exception,
  \<open>SystemExit\<close> among them, leaves the method.\<close>

fun track :: "mppt \<Rightarrow> float \<Rightarrow> int \<Rightarrow> event list \<Rightarrow> outcome" where
  "track s previous_power direction [] =
     AwaitTrack (kwrite s (SourceVoltage4f (Vmpp s))) previous_power direction"
| "track s previous_power direction (e # es) =
     (case track_cycle s previous_power direction e of
        Inl (x, s') \<Rightarrow>
          (if x = KeyboardInterrupt then (case shutdown s' of (y, s'') \<Rightarrow> Raised y s'')
           else Raised x s')
      | Inr (s', previous_power', direction') \<Rightarrow> track s' previous_power' direction' es)"

section \<open>The initial sweep\<close>

definition find_open_circuit :: "mppt \<Rightarrow> event \<Rightarrow> (exn \<times> mppt) + mppt" where
  "find_open_circuit s e =
     (let s1 = kwrites s
                 [Fixed '':source:function current'',
                  Fixed '':source:current:mode fixed'',
                  Fixed '':source:current:range min'',
                  Fixed '':source:current 0'',
                  Fixed ''sense:voltage:protection 10'',
                  Fixed ''sense:voltage:range 10'',
                  Fixed '':sense:voltage:nplcycles 1'',
                  Fixed '':sense:current:nplcycles 1'',
                  Fixed '':display:digits 7'',
                  OutputOn];
          s2 = write_to_console s1
                 ''Holding device at 0 current for 5 seconds before measuring Voc.'';
          s3 = write_to_console s2 ''Measuring open circuit voltage.''
      in case read3 e of
           Inl x \<Rightarrow> Inl (x, s3)
         | Inr (Voc', _, _) \<Rightarrow>
             (let s4 = s3\<lparr>Voc := Voc'\<rparr>;
                  s5 = write_to_console s4 ''Device Voc''
              in Inr (kwrite s5 OutputOff)))"

text \<open>\<open>np.reshape(jv_sweep, (-1,3))\<close>: the rows of three values; \<open>ValueError\<close> when the
  number of values is not a multiple of three.\<close>

fun reshape3 :: "float list \<Rightarrow> exn + (float \<times> float \<times> float) list" where
  "reshape3 [] = Inr []"
| "reshape3 (a # b # c # r) =
     (case reshape3 r of Inl x \<Rightarrow> Inl x | Inr rows \<Rightarrow> Inr ((a, b, c) # rows))"
| "reshape3 _ = Inl ValueError"

text \<open>\<open>np.argmax\<close> on a non-empty array of numbers: the index of the first occurrence of
  the maximum. \<open>argmax_from bi bv k xs\<close> scans \<open>xs\<close>, whose first element has index \<open>k\<close>,
  with the best index \<open>bi\<close> and the best value \<open>bv\<close> so far.\<close>

fun argmax_from :: "nat \<Rightarrow> float \<Rightarrow> nat \<Rightarrow> float list \<Rightarrow> nat" where
  "argmax_from bi bv k [] = bi"
| "argmax_from bi bv k (x # xs) =
     (if bv < x then argmax_from k x (Suc k) xs else argmax_from bi bv (Suc k) xs)"

fun argmax :: "float list \<Rightarrow> nat" where
  "argmax [] = 0"
| "argmax (x # xs) = argmax_from 0 x 1 xs"

text \<open>Lines 233 to 238, on the rows of the sweep (\<open>plot_sweep\<close>, which follows them, only
  draws and is not part of the model): the columns \<open>v\<close> and \<open>i\<close>, \<open>Isc\<close>
  from the last row (\<open>i[-1]\<close> raises \<open>IndexError\<close> when there is no row), the power
  \<open>abs(v*i)\<close>, and \<open>Vmpp\<close> at its maximum.\<close>

definition sweep_power :: "(float \<times> float \<times> float) list \<Rightarrow> float list" where
  "sweep_power rows = map (\<lambda>(v, i, t). fabs (fmul v i)) rows"

definition analyse_sweep :: "mppt \<Rightarrow> (float \<times> float \<times> float) list \<Rightarrow> (exn \<times> mppt) + mppt" where
  "analyse_sweep s rows =
     (let v = map (\<lambda>(v, i, t). v) rows;
          i = map (\<lambda>(v, i, t). i) rows
      in if i = [] then Inl (IndexError, s)
         else let s1 = s\<lparr>Isc := last i\<rparr>;
                  p = sweep_power rows;
                  mpp_ind = argmax p
              in Inr (s1\<lparr>Vmpp := v ! mpp_ind\<rparr>))"

definition determine_initial_Vmpp ::
  "mppt \<Rightarrow> event \<Rightarrow> event \<Rightarrow> event \<Rightarrow> (exn \<times> mppt) + mppt" where
  "determine_initial_Vmpp s voc_ev step_ev sweep_ev =
     (let n_points = 600; current_compliance = lit (4 / 100)
      in case find_open_circuit s voc_ev of
           Inl r \<Rightarrow> Inl r
         | Inr s1 \<Rightarrow>
             (let s2 = write_to_console s1 ''Sweeping from Voc to 0 V to find initial Vmpp.'';
                  s3 = kwrites s2
                         [Fixed '':source:function voltage'',
                          Fixed '':source:voltage:mode sweep'',
                          Fixed '':source:sweep:spacing linear'',
                          Fixed '':source:delay 0.05'',
                          TriggerCount n_points,
                          SweepPoints n_points,
                          VoltageStart4f (Voc s2),
                          Fixed '':source:voltage:stop 0.0000'']
              in case query_ascii_values step_ev of
                   Inl x \<Rightarrow> Inl (x, s3)
                 | Inr [] \<Rightarrow> Inl (IndexError, s3)
                 | Inr (st # _) \<Rightarrow>
                     (let s4 = s3\<lparr>v_step := fabs st\<rparr>;
                          s5 = kwrites s4
                                 [VoltageRange4f (Voc s4),
                                  Fixed '':source:sweep:ranging best'',
                                  CurrentProtection6f current_compliance,
                                  CurrentRange6f current_compliance,
                                  Fixed '':sense:voltage:nplcycles 0.5'',
                                  Fixed '':sense:current:nplcycles 0.5'',
                                  Fixed '':display:digits 5'',
                                  SourceVoltage4f (Voc s4),
                                  OutputOn]
                      in case query_ascii_values sweep_ev of
                           Inl x \<Rightarrow> Inl (x, s5)
                         | Inr jv_sweep \<Rightarrow>
                             (case reshape3 jv_sweep of
                                Inl x \<Rightarrow> Inl (x, s5)
                              | Inr rows \<Rightarrow>
                                  (case analyse_sweep s5 rows of
                                     Inl r \<Rightarrow> Inl r
                                   | Inr s6 \<Rightarrow>
                                       Inr (write_to_console
                                              (write_to_console s6 ''Initial Mpp found:'')
                                              ''mW @ V''))))))"

section \<open>Tracking\<close>

text \<open>Of \<open>initialise_interactive_plot\<close> only line 269 can fail. \<open>self.Isc\<close> is a
  \<open>numpy.float64\<close>, so the division by a device area of zero does not raise: it gives
  an infinity or a NaN, which \<open>set_ylim\<close> refuses with \<open>ValueError\<close>. The figure itself is
  not part of the model.\<close>

definition initialise_interactive_plot :: "mppt \<Rightarrow> (exn \<times> mppt) + mppt" where
  "initialise_interactive_plot s =
     (if device_area s = 0 then Inl (ValueError, s) else Inr s)"

text \<open>Lines 375 to 379, between the two loops: the source is set to \<open>Vmpp\<close>, and the
  locals \<open>previous_power\<close> and \<open>direction\<close> of the tracking loop are initialised from the
  \<open>v\<close> and \<open>i\<close> that the walk-in left.\<close>

definition begin_tracking :: "mppt \<Rightarrow> float \<Rightarrow> float \<Rightarrow> mppt \<times> float \<times> int" where
  "begin_tracking s v i =
     (let s1 = kwrite s (SourceVoltage4f (Vmpp s));
          s2 = write_to_console s1 ''Device at Vmpp. Beginning MPP tracking.''
      in (s2, fabs (fmul v i), 1))"

text \<open>Lines 361 to 397, after the sweep: the first reading gives \<open>start_time\<close>, then the
  walk-in loop runs, then the tracking loop.\<close>

definition walk_and_track :: "mppt \<Rightarrow> event list \<Rightarrow> outcome" where
  "walk_and_track s evs =
     (let V_set = 0;
          s1 = kwrites s [Fixed '':source:voltage:mode fixed'', Fixed '':trigger:count 1'']
      in case evs of
           [] \<Rightarrow> AwaitStart s1
         | e # es \<Rightarrow>
             (case read3 e of
                Inl x \<Rightarrow> Raised x s1
              | Inr (v, i, t) \<Rightarrow>
                  (case walk_in (s1\<lparr>start_time := t\<rparr>) V_set v i es of
                     Inl out \<Rightarrow> out
                   | Inr (s2, v', i', rest) \<Rightarrow>
                       (case begin_tracking s2 v' i' of
                          (s3, previous_power, direction) \<Rightarrow>
                            track s3 previous_power direction rest))))"

definition track_maximum_power_point ::
  "mppt \<Rightarrow> event \<Rightarrow> event \<Rightarrow> event \<Rightarrow> event list \<Rightarrow> outcome" where
  "track_maximum_power_point s voc_ev step_ev sweep_ev evs =
     (case determine_initial_Vmpp s voc_ev step_ev sweep_ev of
        Inl (x, s') \<Rightarrow> Raised x s'
      | Inr s1 \<Rightarrow>
          (let s2 = write_to_console s1 ''Walking back to the initial Vmpp...''
           in case initialise_interactive_plot s2 of
                Inl (x, s') \<Rightarrow> Raised x s'
              | Inr s3 \<Rightarrow> walk_and_track s3 evs))"

section \<open>Initialisation\<close>

text \<open>What can go wrong while the Keithley is opened and configured: the resource
  manager, \<open>open_resource\<close>, or the first write of a given command.\<close>

datatype keithley_fault = ResourceManagerFails | OpenResourceFails | WriteFails scpi

definition init_commands :: "scpi list" where
  \<open>init_commands =
     [Fixed ''*RST'',
      Fixed '':trace:clear'',
      Fixed '':system:azero on'',
      Fixed '':sense:function:concurrent on'',
      Fixed '':sense:function "current:dc", "voltage:dc"'',
      Fixed '':format:elements voltage,current,time'']\<close>

text \<open>In the handler the local \<open>K2400\<close> is unbound when the failure came before
  \<open>open_resource\<close> returned; the inner \<open>try\<close> swallows that, and a failing \<open>close\<close>
  (\<open>close_fails\<close>) as well. The handler ends in \<open>sys.exit(1)\<close>.\<close>

definition initialise_keithley ::
  "mppt \<Rightarrow> keithley_fault option \<Rightarrow> bool \<Rightarrow> (exn \<times> mppt) + mppt" where
  "initialise_keithley s fault close_fails =
     (if fault = Some ResourceManagerFails \<or> fault = Some OpenResourceFails then
        Inl (SystemExit 1, write_to_console s ''Unable to connect to Keithley 2400.'')
      else
        (let s1 = s\<lparr>K2400 := (K2400 s)\<lparr>opened := opened (K2400 s) + 1\<rparr>\<rparr>;
             sent = (case fault of
                       Some (WriteFails c) \<Rightarrow> takeWhile (\<lambda>d. d \<noteq> c) init_commands
                     | _ \<Rightarrow> init_commands);
             s2 = kwrites s1 sent
         in if length sent < length init_commands then
              (let s3 = write_to_console s2 ''Unable to connect to Keithley 2400.'';
                   s4 = (if close_fails then s3
                         else s3\<lparr>K2400 := (K2400 s3)\<lparr>k_closed := k_closed (K2400 s3) + 1\<rparr>\<rparr>)
               in Inl (SystemExit 1, s4))
            else Inr (write_to_console s2 ''Keithley 2400 successfully initialised.'')))"

text \<open>The calls on the NIDAQmx task that can raise.\<close>

datatype daq_step = NewTask | AddChan | Start | WriteLine | Stop | Close

text \<open>The \<open>except\<close> branch of \<open>initialise_shutter_control\<close> when the local \<open>task\<close> is
  bound: the message, then \<open>task.stop()\<close> and \<open>task.close()\<close>, then \<open>None\<close>.\<close>

definition shutter_handler ::
  "mppt \<Rightarrow> (daq_step \<Rightarrow> bool) \<Rightarrow> daq_task \<Rightarrow> (exn \<times> mppt) + (mppt \<times> daq_task option)" where
  "shutter_handler s fails t =
     (let s1 = write_to_console s
                 ''Could not initialise shutter control. Manually control shutter.''
      in if fails Stop then Inl (DaqError, s1)
         else if fails Close then Inl (DaqError, s1)
         else Inr (s1, None))"

text \<open>When \<open>Task()\<close> itself raises, the local \<open>task\<close> was never bound, and the test
  \<open>if task:\<close> of the handler raises \<open>UnboundLocalError\<close>.\<close>

definition initialise_shutter_control ::
  "mppt \<Rightarrow> (daq_step \<Rightarrow> bool) \<Rightarrow> (exn \<times> mppt) + (mppt \<times> daq_task option)" where
  "initialise_shutter_control s fails =
     (if fails NewTask then
        Inl (UnboundLocalError,
             write_to_console s
               ''Could not initialise shutter control. Manually control shutter.'')
      else
        (let t0 = \<lparr>channels = [], started = False, line = False, stopped = 0, t_closed = 0\<rparr>
         in if fails AddChan then shutter_handler s fails t0
            else let t1 = t0\<lparr>channels := [shutterOut s]\<rparr>
                 in if fails Start then shutter_handler s fails t1
                    else let t2 = t1\<lparr>started := True\<rparr>
                         in if fails WriteLine then shutter_handler s fails t2
                            else let t3 = t2\<lparr>line := False\<rparr>
                                 in Inr (write_to_console s
                                           ''DAQ task initialised for automatic shutter control.'',
                                         Some t3)))"

definition initialise ::
  "mppt \<Rightarrow> keithley_fault option \<Rightarrow> bool \<Rightarrow> (daq_step \<Rightarrow> bool) \<Rightarrow> (exn \<times> mppt) + mppt" where
  "initialise s fault close_fails fails =
     (case initialise_keithley s fault close_fails of
        Inl r \<Rightarrow> Inl r
      | Inr s1 \<Rightarrow>
          (case initialise_shutter_control s1 fails of
             Inl r \<Rightarrow> Inl r
           | Inr (s2, t) \<Rightarrow> Inr (s2\<lparr>task := t\<rparr>)))"

text \<open>The parsed command line.\<close>

record args =
  a_total_tracking_time :: int
  a_device_area :: float
  a_shutterOut :: string

text \<open>\<open>__init__\<close>: the attributes are set, the log file is opened, and the two devices
  are initialised.\<close>

definition init ::
  "args \<Rightarrow> keithley_fault option \<Rightarrow> bool \<Rightarrow> (daq_step \<Rightarrow> bool) \<Rightarrow> (exn \<times> mppt) + mppt" where
  "init a fault close_fails fails =
     (let s = \<lparr>total_tracking_time = a_total_tracking_time a,
               device_area = a_device_area a,
               shutterOut = a_shutterOut a,
               K2400 = \<lparr>opened = 0, written = [], k_closed = 0\<rparr>,
               task = None, start_time = 0, v_step = 0, Voc = 0, Isc = 0, Vmpp = 0,
               log_file = [], log_closed = False,
               v_data = [], i_data = [], t_data = [], efficiencies = [],
               console = []\<rparr>
      in case initialise s fault close_fails fails of
           Inl r \<Rightarrow> Inl r
         | Inr s1 \<Rightarrow>
             Inr ((write_to_console s1 ''minutes MPP tracking.'')
                    \<lparr>v_data := [], i_data := [], t_data := [], efficiencies := []\<rparr>))"

text \<open>The script: the tracker is built and tracking begins. The environment of a run is
  the faults of the initialisation, the answers to the three queries of the sweep, and
  the answers to the queries of the two loops.\<close>

record env =
  k_fault :: "keithley_fault option"
  k_close_fails :: bool
  daq_fails :: "daq_step \<Rightarrow> bool"
  voc_ev :: event
  step_ev :: event
  sweep_ev :: event
  events :: "event list"

definition main :: "args \<Rightarrow> env \<Rightarrow> outcome" where
  "main a w =
     (case init a (k_fault w) (k_close_fails w) (daq_fails w) of
        Inl (x, s) \<Rightarrow> Raised x s
      | Inr s \<Rightarrow> track_maximum_power_point s (voc_ev w) (step_ev w) (sweep_ev w) (events w))"

text \<open>Whether the output of the Keithley is energised after a sequence of commands:
  \<open>:output on\<close> switches it on, \<open>:output off\<close> and the reset \<open>*RST\<close> switch it off.\<close>

fun output_on :: "bool \<Rightarrow> scpi list \<Rightarrow> bool" where
  "output_on b [] = b"
| "output_on b (OutputOn # cs) = output_on True cs"
| "output_on b (OutputOff # cs) = output_on False cs"
| "output_on b (Fixed c # cs) = output_on (if c = ''*RST'' then False else b) cs"
| "output_on b (_ # cs) = output_on b cs"

section \<open>Example runs\<close>

text \<open>A session as the sweep can leave it: \<open>Voc\<close> is 0.5 V, the step is \<open>2\<^sup>-\<^sup>1\<^sup>0\<close> V, and
  the maximum of the power was at the first point of the sweep.\<close>

definition session0 :: mppt where
  "session0 =
     \<lparr>total_tracking_time = 10, device_area = 1, shutterOut = ''Testboard/port1/line0'',
      K2400 = \<lparr>opened = 1, written = [OutputOn], k_closed = 0\<rparr>,
      task = Some \<lparr>channels = [''Testboard/port1/line0''], started = True, line = False,
                   stopped = 0, t_closed = 0\<rparr>,
      start_time = 0, v_step = 1 / 1024, Voc = 1 / 2, Isc = - (1 / 64), Vmpp = 1 / 2,
      log_file = [], log_closed = False,
      v_data = [], i_data = [], t_data = [], efficiencies = [], console = []\<rparr>"

text \<open>The session after one tracking cycle from \<open>session0\<close> in which the power
  improved.\<close>

definition session1 :: mppt where
  "session1 =
     session0\<lparr>K2400 := \<lparr>opened = 1, written = [OutputOn, SourceVoltage4f (1 / 2)],
                         k_closed = 0\<rparr>,
               Vmpp := 513 / 1024, v_data := [1 / 2], i_data := [125 / 8], t_data := [1],
               efficiencies := [125 / 16]\<rparr>"

text \<open>A command line and an environment: no fault at initialisation, a device that gives
  no current during the sweep (so that the power is zero at every point), a first reading
  at instrument time 100, two readings of the walk-in, and one reading of the tracking
  loop with a small current.\<close>

definition args0 :: args where
  "args0 = \<lparr>a_total_tracking_time = 10, a_device_area = 1,
            a_shutterOut = ''Testboard/port1/line0''\<rparr>"

definition env0 :: env where
  "env0 = \<lparr>k_fault = None, k_close_fails = False, daq_fails = (\<lambda>st. False),
           voc_ev = Response [1 / 2, 0, 0],
           step_ev = Response [- (1 / 4)],
           sweep_ev = Response [1 / 2, 0, 0,  1 / 4, 0, 1 / 20,  0, 0, 1 / 10],
           events = [Response [0, 0, 100],
                     Response [0, 0, 101],
                     Response [1 / 4, 0, 102],
                     Response [1 / 2, 1 / 1048576, 103]]\<rparr>"

text \<open>The directions that the update rule of the tracking loop takes on a sequence of
  powers: \<open>perturb_observe\<close> is run on each power in turn, and the direction after each
  is collected.\<close>

fun po_directions :: "mppt \<Rightarrow> float \<Rightarrow> int \<Rightarrow> float list \<Rightarrow> int list" where
  "po_directions s previous_power direction [] = []"
| "po_directions s previous_power direction (pw # pws) =
     (case perturb_observe s previous_power direction pw of
        (s', previous_power', direction') \<Rightarrow>
          direction' # po_directions s' previous_power' direction' pws)"

text \<open>\<open>V_set\<close> of the walk-in after \<open>k\<close> cycles: it starts at 0 and every cycle adds
  the step, in floats.\<close>

fun V_set_after :: "float \<Rightarrow> nat \<Rightarrow> float" where
  "V_set_after step 0 = 0"
| "V_set_after step (Suc k) = fadd (V_set_after step k) step"

text \<open>\<open>leaves_after V_set step V n\<close>: the loop \<open>while V_set < V: V_set += step\<close>, started
  at \<open>V_set\<close>, evaluates its condition to true \<open>n\<close> times and then to false.\<close>

fun leaves_after :: "float \<Rightarrow> float \<Rightarrow> float \<Rightarrow> nat \<Rightarrow> bool" where
  "leaves_after V_set step V 0 = (\<not> V_set < V)"
| "leaves_after V_set step V (Suc n) = (V_set < V \<and> leaves_after (fadd V_set step) step V n)"

text \<open>A reading of a cycle that arrives within the tracking time.\<close>

fun in_time :: "mppt \<Rightarrow> event \<Rightarrow> bool" where
  "in_time s (Response [v, i, tx]) =
     (\<not> of_int (total_tracking_time s) < fsub tx (start_time s))"
| "in_time s _ = False"

text \<open>Sessions for the walk-in: a step of 0.25 V towards 0.625 V, which floats add
  without rounding; a step of 0.1 towards 1.0; and the 0.01 towards 0.62 of the
  specification's example.\<close>

definition session_w :: mppt where
  "session_w = session0\<lparr>Voc := 3 / 4, Vmpp := 5 / 8, v_step := 1 / 4\<rparr>"

definition events_w :: "event list" where
  "events_w = [Response [0, 0, 1], Response [1 / 4, 0, 2], Response [1 / 2, 0, 3],
               Response [5 / 8, 0, 4]]"

definition session_tenth :: mppt where
  "session_tenth = session0\<lparr>Voc := lit 1, Vmpp := lit 1, v_step := lit (1 / 10)\<rparr>"

definition session_62 :: mppt where
  "session_62 = session0\<lparr>Voc := lit (65 / 100), Vmpp := lit (62 / 100), v_step := lit (1 / 100)\<rparr>"

text \<open>A session whose \<open>Vmpp\<close> is the float that three additions of 0.1 give,
  0.30000000000000004.\<close>

definition session_three :: mppt where
  "session_three = session0\<lparr>Voc := lit (1 / 2),
                             Vmpp := 1351079888211149 / 4503599627370496,
                             v_step := lit (1 / 10)\<rparr>"

text \<open>An environment in which the power of the sweep has its maximum at the last point,
  where the measured voltage is slightly negative: the sweep leaves \<open>Vmpp \<le> 0\<close>, and the
  walk-in runs no cycle.\<close>

definition env_neg :: env where
  "env_neg = \<lparr>k_fault = None, k_close_fails = False, daq_fails = (\<lambda>st. False),
              voc_ev = Response [1 / 2, 0, 0],
              step_ev = Response [- (1 / 4)],
              sweep_ev = Response [1 / 2, 0, 0,  1 / 4, 0, 1 / 20,
                                   - (1 / 1024), - (1 / 64), 1 / 10],
              events = [Response [- (1 / 1024), - (1 / 64), 100]]\<rparr>"

text \<open>The values of two sweeps of three points: one with a peak of the power at the second
  point, one of a device that gives no current.\<close>

definition rows_peak :: "float list" where
  "rows_peak = [1 / 2, 0, 0,  1 / 4, - (1 / 64), 1 / 20,  0, - (1 / 32), 1 / 10]"

definition rows_dark :: "float list" where
  "rows_dark = [lit (65 / 100), 0, 0,  lit (325 / 1000), 0, 1 / 20,  0, 0, 1 / 10]"

section \<open>Evaluating floats\<close>

text \<open>The rounding is unfolded on numerals only, so that evaluation stops at a float that is
  not known.\<close>

lemmas rnd_literal =
  rnd_def [of 0] rnd_def [of 1] rnd_def [of "- 1"]
  rnd_def [of "numeral k"] rnd_def [of "- numeral k"]
  rnd_def [of "numeral a / numeral b"] rnd_def [of "- (numeral a / numeral b)"]
  rnd_def [of "1 / numeral b"] rnd_def [of "- (1 / numeral b)"]
  for k a b

lemmas float_defs =
  rnd_literal scale_down.simps scale_up.simps pow2_def round_half_even_def exponent_def Let_def
  fadd_def fsub_def fmul_def fdiv_def fabs_def lit_def

section \<open>Facts about one cycle\<close>

lemma check_runtime_Inr: "check_runtime s tx = Inr s' \<Longrightarrow> s' = s"
  by (auto simp: check_runtime_def Let_def split: if_splits)

lemma check_runtime_Inr_iff:
  "check_runtime s tx = Inr s' \<longleftrightarrow> s' = s \<and> \<not> fsub tx (start_time s) > of_int (total_tracking_time s)"
  by (auto simp: check_runtime_def Let_def split: if_splits)

lemma update_plot_Inr:
  assumes "update_plot s v i tx = Inr s'"
  shows "device_area s \<noteq> 0 \<and> s' = s\<lparr>t_data := t_data s @ [fsub tx (start_time s)], v_data := v_data s @ [v],
               i_data := i_data s @ [fabs (fdiv (fmul i 1000) (device_area s))],
               efficiencies := efficiencies s @ [calculate_eff s v i]\<rparr>"
  using assms by (auto simp: update_plot_def Let_def calculate_eff_def split: if_splits)

lemma update_plot_ok:
  "device_area s \<noteq> 0 \<Longrightarrow> update_plot s v i tx = Inr (s\<lparr>t_data := t_data s @ [fsub tx (start_time s)], v_data := v_data s @ [v],
               i_data := i_data s @ [fabs (fdiv (fmul i 1000) (device_area s))],
               efficiencies := efficiencies s @ [calculate_eff s v i]\<rparr>)"
  by (auto simp: update_plot_def Let_def calculate_eff_def split: if_splits)

lemma walk_cycle_Inr:
  assumes "walk_cycle s V e = Inr (s', V', v, i)"
  shows "\<exists>tx. read3 e = Inr (v, i, tx)
           \<and> \<not> fsub tx (start_time s) > of_int (total_tracking_time s)
           \<and> log_file s' = log_file s @ [(fsub tx (start_time s), v, i)]"
    and "V' = fadd V (v_step s)"
    and "Vmpp s' = Vmpp s" and "v_step s' = v_step s" and "Voc s' = Voc s"
    and "start_time s' = start_time s" and "total_tracking_time s' = total_tracking_time s"
    and "device_area s' = device_area s" and "device_area s \<noteq> 0"
    and "length (v_data s') = Suc (length (v_data s))"
    and "task s' = task s" and "log_closed s' = log_closed s"
  using assms
  by (auto simp: walk_cycle_def Let_def kwrite_def write_data_to_file_def check_runtime_Inr_iff
      dest!: update_plot_Inr split: sum.splits prod.splits)

lemma track_cycle_Inr:
  assumes "track_cycle s pp d e = Inr r"
  shows "\<exists>v i tx s3. read3 e = Inr (v, i, tx)
           \<and> \<not> fsub tx (start_time s) > of_int (total_tracking_time s)
           \<and> r = perturb_observe s3 pp d (fabs (fmul v i))
           \<and> Vmpp s3 = Vmpp s \<and> v_step s3 = v_step s \<and> Voc s3 = Voc s
           \<and> log_file s3 = log_file s \<and> log_closed s3 = log_closed s \<and> task s3 = task s
           \<and> start_time s3 = start_time s \<and> total_tracking_time s3 = total_tracking_time s
           \<and> device_area s3 = device_area s"
  using assms
  by (auto simp: track_cycle_def Let_def kwrite_def check_runtime_Inr_iff
      dest!: update_plot_Inr split: sum.splits prod.splits)


lemma in_time_cong:
  "start_time s' = start_time s \<Longrightarrow> total_tracking_time s' = total_tracking_time s
     \<Longrightarrow> in_time s' e = in_time s e"
  by (induction s e rule: in_time.induct) simp_all

lemma in_time_Response:
  "in_time s e \<Longrightarrow> \<exists>v i tx. e = Response [v, i, tx]
      \<and> \<not> of_int (total_tracking_time s) < fsub tx (start_time s)"
  by (induction s e rule: in_time.induct) simp_all

lemma walk_cycle_ok:
  assumes "in_time s e" and "device_area s \<noteq> 0"
  shows "\<exists>s' v' i'. walk_cycle s V e = Inr (s', fadd V (v_step s), v', i')"
proof -
  from in_time_Response [OF assms(1)] obtain v i tx where
    e: "e = Response [v, i, tx]"
    and t: "\<not> of_int (total_tracking_time s) < fsub tx (start_time s)" by blast
  show ?thesis using t assms(2)
    by (simp add: e walk_cycle_def read3_def kwrite_def update_plot_def Let_def
        check_runtime_def)
qed

section \<open>Shutdown, interrupts and the shutter\<close>

lemma shutdown_keithley: "K2400 (snd (shutdown s)) = K2400 s"
  by (simp add: shutdown_def Let_def write_to_console_def split: option.splits)

lemma shutdown_exit: "fst (shutdown s) = SystemExit 0 \<and> log_closed (snd (shutdown s))"
  by (simp add: shutdown_def Let_def write_to_console_def)

lemma walk_in_interrupt:
  "V_set < Vmpp s \<Longrightarrow>
     walk_in s V_set v i (Interrupt # es)
       = Inl (Raised KeyboardInterrupt (kwrite s (SourceVoltage V_set)))"
  by (simp add: walk_cycle_def read3_def Let_def)

lemma track_interrupt:
  "track s previous_power direction (Interrupt # es)
     = Raised (SystemExit 0) (snd (shutdown (kwrite s (SourceVoltage4f (Vmpp s)))))"
  by (simp add: track_cycle_def read3_def Let_def shutdown_def split: prod.splits)

lemma track_cycle_log:
  assumes "track_cycle s previous_power direction e = Inr (s', previous_power', direction')"
  shows "log_file s' = log_file s"
proof -
  from track_cycle_Inr [OF assms] obtain v i and tx :: float and s3 where
    "(s', previous_power', direction')
       = perturb_observe s3 previous_power direction (fabs (fmul v i))"
    "log_file s3 = log_file s" by blast
  then show ?thesis by (auto simp: perturb_observe_def Let_def split: if_splits)
qed

lemma shutter_task_unbound:
  "fails NewTask \<Longrightarrow>
     initialise_shutter_control s fails
       = Inl (UnboundLocalError,
              write_to_console s
                ''Could not initialise shutter control. Manually control shutter.'')"
  by (simp add: initialise_shutter_control_def)

lemma shutter_handled:
  assumes "\<not> fails NewTask" and "fails AddChan \<or> fails Start \<or> fails WriteLine"
    and "\<not> fails Stop" and "\<not> fails Close"
  shows "initialise_shutter_control s fails
           = Inr (write_to_console s
                    ''Could not initialise shutter control. Manually control shutter.'', None)"
  using assms by (auto simp: initialise_shutter_control_def shutter_handler_def Let_def)

section \<open>The maximum of the sweep\<close>

lemma argmax_from_none:
  "\<forall>x \<in> set xs. \<not> bv < x \<Longrightarrow> argmax_from bi bv k xs = bi"
  by (induction xs arbitrary: k) auto

lemma argmax_from_cases:
  "(argmax_from bi bv k xs = bi \<and> (\<forall>x \<in> set xs. x \<le> bv))
   \<or> (k \<le> argmax_from bi bv k xs \<and> argmax_from bi bv k xs < k + length xs
       \<and> bv < xs ! (argmax_from bi bv k xs - k)
       \<and> (\<forall>x \<in> set xs. x \<le> xs ! (argmax_from bi bv k xs - k)))"
proof (induction xs arbitrary: bi bv k)
  case Nil
  then show ?case by simp
next
  case (Cons x xs)
  show ?case
  proof (cases "bv < x")
    case True
    from Cons.IH [of k x "Suc k"] show ?thesis
    proof
      assume "argmax_from k x (Suc k) xs = k \<and> (\<forall>y \<in> set xs. y \<le> x)"
      with True show ?thesis by simp
    next
      assume a: "Suc k \<le> argmax_from k x (Suc k) xs
        \<and> argmax_from k x (Suc k) xs < Suc k + length xs
        \<and> x < xs ! (argmax_from k x (Suc k) xs - Suc k)
        \<and> (\<forall>y \<in> set xs. y \<le> xs ! (argmax_from k x (Suc k) xs - Suc k))"
      define r where "r = argmax_from k x (Suc k) xs"
      from a have r: "Suc k \<le> r" "r < Suc k + length xs" "x < xs ! (r - Suc k)"
        "\<forall>y \<in> set xs. y \<le> xs ! (r - Suc k)" by (simp_all add: r_def)
      from r(1) have nth: "(x # xs) ! (r - k) = xs ! (r - Suc k)"
        by (simp add: nth_Cons' Suc_diff_le)
      have "argmax_from bi bv k (x # xs) = r" using True by (simp add: r_def)
      moreover have "k \<le> r" "r < k + length (x # xs)" using r by simp_all
      moreover have "bv < (x # xs) ! (r - k)" using nth r(3) True by simp
      moreover have "\<forall>y \<in> set (x # xs). y \<le> (x # xs) ! (r - k)"
        using nth r(3,4) by auto
      ultimately show ?thesis by blast
    qed
  next
    case False
    from Cons.IH [of bi bv "Suc k"] show ?thesis
    proof
      assume "argmax_from bi bv (Suc k) xs = bi \<and> (\<forall>y \<in> set xs. y \<le> bv)"
      with False show ?thesis by auto
    next
      assume a: "Suc k \<le> argmax_from bi bv (Suc k) xs
        \<and> argmax_from bi bv (Suc k) xs < Suc k + length xs
        \<and> bv < xs ! (argmax_from bi bv (Suc k) xs - Suc k)
        \<and> (\<forall>y \<in> set xs. y \<le> xs ! (argmax_from bi bv (Suc k) xs - Suc k))"
      define r where "r = argmax_from bi bv (Suc k) xs"
      from a have r: "Suc k \<le> r" "r < Suc k + length xs" "bv < xs ! (r - Suc k)"
        "\<forall>y \<in> set xs. y \<le> xs ! (r - Suc k)" by (simp_all add: r_def)
      from r(1) have nth: "(x # xs) ! (r - k) = xs ! (r - Suc k)"
        by (simp add: nth_Cons' Suc_diff_le)
      have "argmax_from bi bv k (x # xs) = r" using False by (simp add: r_def)
      moreover have "k \<le> r" "r < k + length (x # xs)" using r by simp_all
      moreover have "bv < (x # xs) ! (r - k)" using nth r(3) by simp
      moreover have "\<forall>y \<in> set (x # xs). y \<le> (x # xs) ! (r - k)"
        using nth r(3,4) False by auto
      ultimately show ?thesis by blast
    qed
  qed
qed

lemma argmax_max:
  assumes "xs \<noteq> []"
  shows "argmax xs < length xs \<and> (\<forall>k < length xs. xs ! k \<le> xs ! argmax xs)"
proof -
  from assms obtain x ys where xs: "xs = x # ys" by (cases xs) auto
  define r where "r = argmax_from 0 x 1 ys"
  have ar: "argmax xs = r" by (simp add: xs r_def)
  from argmax_from_cases [of 0 x 1 ys] show ?thesis
  proof
    assume "argmax_from 0 x 1 ys = 0 \<and> (\<forall>y \<in> set ys. y \<le> x)"
    then have r0: "r = 0" and le: "\<forall>y \<in> set xs. y \<le> x" by (simp_all add: r_def xs)
    from le have "\<forall>k < length xs. xs ! k \<le> x" by simp
    then show ?thesis unfolding ar r0 by (simp add: xs)
  next
    assume "1 \<le> argmax_from 0 x 1 ys \<and> argmax_from 0 x 1 ys < 1 + length ys
       \<and> x < ys ! (argmax_from 0 x 1 ys - 1)
       \<and> (\<forall>y \<in> set ys. y \<le> ys ! (argmax_from 0 x 1 ys - 1))"
    then have r: "1 \<le> r" "r < 1 + length ys" "x < ys ! (r - 1)"
      "\<forall>y \<in> set ys. y \<le> ys ! (r - 1)" by (simp_all add: r_def)
    from r(1) have nth: "xs ! r = ys ! (r - 1)" by (simp add: xs nth_Cons')
    have "\<forall>y \<in> set xs. y \<le> xs ! r" using r(3,4) nth by (auto simp: xs)
    then have "\<forall>k < length xs. xs ! k \<le> xs ! r" by simp
    moreover have "r < length xs" using r(2) by (simp add: xs)
    ultimately show ?thesis unfolding ar by blast
  qed
qed

lemma argmax_all_equal:
  assumes "\<forall>k < length xs. xs ! k = c"
  shows "argmax xs = 0"
proof (cases xs)
  case Nil
  then show ?thesis by simp
next
  case (Cons x ys)
  from assms have "\<forall>y \<in> set xs. y = c" by (metis in_set_conv_nth)
  then have "x = c" "\<forall>y \<in> set ys. \<not> x < y" by (auto simp: Cons)
  then show ?thesis by (simp add: Cons argmax_from_none)
qed

lemma sweep_power_nth:
  "k < length rows \<Longrightarrow>
     sweep_power rows ! k = fabs (fmul (fst (rows ! k)) (fst (snd (rows ! k))))"
  by (simp add: sweep_power_def split_def)

lemma analyse_sweep_ok:
  assumes "rows \<noteq> []"
  shows "analyse_sweep s rows
           = Inr (s\<lparr>Isc := fst (snd (last rows)),
                    Vmpp := fst (rows ! argmax (sweep_power rows))\<rparr>)"
proof -
  have "argmax (sweep_power rows) < length rows"
    using argmax_max [of "sweep_power rows"] assms by (simp add: sweep_power_def)
  then show ?thesis using assms
    by (simp add: analyse_sweep_def Let_def split_def last_map)
qed

lemma determine_initial_Vmpp_ok:
  assumes "read3 voc_e = Inr (voc, a, b)"
    and "query_ascii_values step_e = Inr (st # sts)"
    and "query_ascii_values sweep_e = Inr jv_sweep"
    and "reshape3 jv_sweep = Inr rows"
    and "rows \<noteq> []"
  shows "\<exists>s'. determine_initial_Vmpp s voc_e step_e sweep_e = Inr s'
           \<and> Vmpp s' = fst (rows ! argmax (sweep_power rows))
           \<and> Isc s' = fst (snd (last rows))
           \<and> Voc s' = voc \<and> v_step s' = fabs st"
  using assms
  by (simp add: determine_initial_Vmpp_def find_open_circuit_def Let_def
      analyse_sweep_ok kwrites_def kwrite_def write_to_console_def)

section \<open>Counting the cycles of the walk-in\<close>

lemma walk_in_count:
  assumes "device_area s \<noteq> 0"
    and "\<forall>k. j \<le> k \<and> k < n \<longrightarrow> V_set_after (v_step s) k < Vmpp s"
    and "\<not> V_set_after (v_step s) n < Vmpp s"
    and "j \<le> n" and "n - j \<le> length evs"
    and "\<forall>e \<in> set (take (n - j) evs). in_time s e"
  shows "\<exists>s' v' i'. walk_in s (V_set_after (v_step s) j) v i evs
                      = Inr (s', v', i', drop (n - j) evs)
           \<and> length (log_file s') = length (log_file s) + (n - j)
           \<and> Vmpp s' = Vmpp s"
  using assms
proof (induction "n - j" arbitrary: j s v i evs)
  case 0
  then have "j = n" by simp
  with 0 show ?case by (cases evs) simp_all
next
  case (Suc m)
  then have jn: "j < n" by simp
  with Suc.prems(2) have lt: "V_set_after (v_step s) j < Vmpp s" by simp
  from Suc.hyps(2) Suc.prems(5) obtain e es where evs: "evs = e # es" by (cases evs) auto
  from Suc.hyps(2) have nj: "n - j = Suc m" by simp
  from Suc.prems(6) have it: "in_time s e" by (simp add: evs nj)
  from walk_cycle_ok [OF it Suc.prems(1)] obtain s1 v1 i1 where
    wc: "walk_cycle s (V_set_after (v_step s) j) e
           = Inr (s1, fadd (V_set_after (v_step s) j) (v_step s), v1, i1)" by blast
  note f = walk_cycle_Inr [OF wc]
  have m: "m = n - Suc j" using nj by simp
  have p1: "device_area s1 \<noteq> 0" using f(8,9) by simp
  have p2: "\<forall>k. Suc j \<le> k \<and> k < n \<longrightarrow> V_set_after (v_step s1) k < Vmpp s1"
    using Suc.prems(2) f(3,4) by simp
  have p3: "\<not> V_set_after (v_step s1) n < Vmpp s1" using Suc.prems(3) f(3,4) by simp
  have p4: "Suc j \<le> n" using jn by simp
  have p5: "n - Suc j \<le> length es" using Suc.prems(5) evs by simp
  have "\<forall>e \<in> set (take (n - Suc j) es). in_time s e"
    using Suc.prems(6) by (simp add: evs nj m [symmetric])
  then have p6: "\<forall>e \<in> set (take (n - Suc j) es). in_time s1 e"
    using in_time_cong [of s1 s] f(6,7) by simp
  from Suc.hyps(1) [OF m p1 p2 p3 p4 p5 p6, of v1 i1] obtain s' v' i' where
    r: "walk_in s1 (V_set_after (v_step s1) (Suc j)) v1 i1 es
          = Inr (s', v', i', drop (n - Suc j) es)"
      "length (log_file s') = length (log_file s1) + (n - Suc j)"
      "Vmpp s' = Vmpp s1" by blast
  from f(1) have lg: "length (log_file s1) = Suc (length (log_file s))" by auto
  have "walk_in s (V_set_after (v_step s) j) v i evs = Inr (s', v', i', drop (n - j) evs)"
    using lt wc r(1) f(4) by (simp add: evs nj m [symmetric])
  moreover have "length (log_file s') = length (log_file s) + (n - j)"
    using r(2) lg nj m by simp
  moreover have "Vmpp s' = Vmpp s" using r(3) f(3) by simp
  ultimately show ?case by blast
qed

lemma leaves_after_numeral:
  "leaves_after V_set step V (numeral k)
     = (V_set < V \<and> leaves_after (fadd V_set step) step V (pred_numeral k))"
  by (simp add: numeral_eq_Suc)

lemma leaves_after_V_set_after:
  "leaves_after (V_set_after step j) step V m
     \<Longrightarrow> (\<forall>k. j \<le> k \<and> k < j + m \<longrightarrow> V_set_after step k < V)
         \<and> \<not> V_set_after step (j + m) < V"
proof (induction m arbitrary: j)
  case 0
  then show ?case by simp
next
  case (Suc m)
  then have lt: "V_set_after step j < V"
    and "leaves_after (V_set_after step (Suc j)) step V m" by simp_all
  from Suc.IH [OF this(2)] have
    a: "\<forall>k. Suc j \<le> k \<and> k < Suc j + m \<longrightarrow> V_set_after step k < V"
    and b: "\<not> V_set_after step (Suc j + m) < V" by simp_all
  have "\<forall>k. j \<le> k \<and> k < j + Suc m \<longrightarrow> V_set_after step k < V"
  proof (intro allI impI)
    fix k assume k: "j \<le> k \<and> k < j + Suc m"
    show "V_set_after step k < V"
    proof (cases "k = j")
      case True
      with lt show ?thesis by simp
    next
      case False
      with k a show ?thesis by simp
    qed
  qed
  with b show ?case by simp
qed

lemma walk_in_leaves:
  assumes "leaves_after 0 (v_step s) (Vmpp s) n" and "device_area s \<noteq> 0"
    and "n \<le> length evs" and "\<forall>e \<in> set (take n evs). in_time s e"
  shows "\<exists>s' v' i'. walk_in s 0 v i evs = Inr (s', v', i', drop n evs)
           \<and> length (log_file s') = length (log_file s) + n \<and> Vmpp s' = Vmpp s"
proof -
  from assms(1) have "leaves_after (V_set_after (v_step s) 0) (v_step s) (Vmpp s) n" by simp
  from leaves_after_V_set_after [OF this] have
    a: "\<forall>k. 0 \<le> k \<and> k < n \<longrightarrow> V_set_after (v_step s) k < Vmpp s"
    and b: "\<not> V_set_after (v_step s) n < Vmpp s" by simp_all
  from walk_in_count [OF assms(2) a b, of evs v i] assms(3,4) show ?thesis by simp
qed

lemma walk_in_exit:
  "walk_in s V_set v i es = Inr (s', v', i', rest) \<Longrightarrow>
     Vmpp s' = Vmpp s \<and> v_step s' = v_step s \<and> start_time s' = start_time s
     \<and> total_tracking_time s' = total_tracking_time s \<and> device_area s' = device_area s
     \<and> (\<exists>n \<le> length es. rest = drop n es \<and> (n = 0 \<longleftrightarrow> \<not> V_set < Vmpp s)
          \<and> (if n = 0 then v' = v \<and> i' = i \<and> s' = s
              else \<exists>tx. read3 (es ! (n - 1)) = Inr (v', i', tx)))"
proof (induction es arbitrary: s V_set v i)
  case Nil
  then show ?case by (auto split: if_splits)
next
  case (Cons e es)
  show ?case
  proof (cases "V_set < Vmpp s")
    case False
    with Cons.prems have "rest = e # es" "v' = v" "i' = i" "s' = s" by simp_all
    with False show ?thesis by (simp add: exI [of _ 0])
  next
    case True
    with Cons.prems obtain s1 V1 v1 i1 where
      wc: "walk_cycle s V_set e = Inr (s1, V1, v1, i1)"
      and rec: "walk_in s1 V1 v1 i1 es = Inr (s', v', i', rest)"
      by (auto split: sum.splits prod.splits)
    note f = walk_cycle_Inr [OF wc]
    from f(1) obtain tx where r: "read3 e = Inr (v1, i1, tx)" by blast
    from Cons.IH [OF rec] obtain n where
      same: "Vmpp s' = Vmpp s1" "v_step s' = v_step s1" "start_time s' = start_time s1"
        "total_tracking_time s' = total_tracking_time s1" "device_area s' = device_area s1"
      and n: "n \<le> length es" "rest = drop n es"
        "if n = 0 then v' = v1 \<and> i' = i1 \<and> s' = s1
         else \<exists>tx. read3 (es ! (n - 1)) = Inr (v', i', tx)"
      by blast
    have "\<exists>tx. read3 ((e # es) ! (Suc n - 1)) = Inr (v', i', tx)"
    proof (cases "n = 0")
      case True
      with n(3) r show ?thesis by auto
    next
      case False
      with n(3) show ?thesis by (simp add: nth_Cons')
    qed
    with n(1,2) True have
      "\<exists>m \<le> length (e # es). rest = drop m (e # es) \<and> (m = 0 \<longleftrightarrow> \<not> V_set < Vmpp s)
          \<and> (if m = 0 then v' = v \<and> i' = i \<and> s' = s
              else \<exists>tx. read3 ((e # es) ! (m - 1)) = Inr (v', i', tx))"
      by (intro exI [of _ "Suc n"]) simp
    with same f(3,4,6,7,8) show ?thesis by simp
  qed
qed

lemma track_cycle_ok:
  assumes "in_time s e" and "device_area s \<noteq> 0"
  shows "\<exists>s' previous_power' direction'.
           track_cycle s previous_power direction e = Inr (s', previous_power', direction')"
proof -
  from in_time_Response [OF assms(1)] obtain v i tx where
    e: "e = Response [v, i, tx]"
    and t: "\<not> of_int (total_tracking_time s) < fsub tx (start_time s)" by blast
  obtain r where "perturb_observe
      (s\<lparr>K2400 := (K2400 s)\<lparr>written := written (K2400 s) @ [SourceVoltage4f (Vmpp s)]\<rparr>,
         t_data := t_data s @ [fsub tx (start_time s)], v_data := v_data s @ [v],
         i_data := i_data s @ [fabs (fdiv (fmul i 1000) (device_area s))],
         efficiencies := efficiencies s @ [fabs (fmul v (fdiv (fmul i 1000) (device_area s)))]\<rparr>)
      previous_power direction (fabs (fmul v i)) = r" by simp
  then show ?thesis using t assms(2)
    by (cases r) (simp add: e track_cycle_def read3_def kwrite_def update_plot_def Let_def
        check_runtime_def calculate_eff_def)
qed

section \<open>The rounding error of the walk-in\<close>

text \<open>The rounding has a relative error of at most \<open>2\<^sup>-\<^sup>5\<^sup>3\<close>, so \<open>V_set\<close> after \<open>k\<close> cycles
  lies between \<open>k * step * (1 - 2\<^sup>-\<^sup>5\<^sup>3)\<^sup>k\<close> and \<open>k * step * (1 + 2\<^sup>-\<^sup>5\<^sup>3)\<^sup>k\<close>.\<close>

lemma pow2_powi: "pow2 e = 2 powi e"
  by (simp add: pow2_def power_int_def field_simps)

lemma pow2_pos: "0 < pow2 e"
  by (simp add: pow2_powi)

lemma pow2_add: "pow2 (a + b) = pow2 a * pow2 b"
  by (simp add: pow2_powi power_int_add)

lemma pow2_1: "pow2 1 = 2" and pow2_0: "pow2 0 = 1" and pow2_m1: "pow2 (- 1) = 1 / 2"
  by (simp_all add: pow2_def)

lemma pow2_52: "pow2 52 = 2 ^ 52"
  by (simp add: pow2_def)

lemma scale_down_bounds:
  "1 \<le> x \<Longrightarrow> pow2 (scale_down x) \<le> x \<and> x < 2 * pow2 (scale_down x)"
proof (induction x rule: scale_down.induct)
  case (1 x)
  show ?case
  proof (cases "2 \<le> x")
    case True
    then have "1 \<le> x / 2" by simp
    from "1.IH" [OF True this] have
      ih: "pow2 (scale_down (x / 2)) \<le> x / 2" "x / 2 < 2 * pow2 (scale_down (x / 2))" by simp_all
    have sd: "scale_down x = scale_down (x / 2) + 1"
      using True scale_down.simps [of x] by simp
    have "pow2 (scale_down x) = pow2 (scale_down (x / 2)) * 2"
      unfolding sd by (simp add: pow2_add pow2_1)
    with ih show ?thesis by simp
  next
    case False
    then have "scale_down x = 0" using scale_down.simps [of x] by simp
    with False "1.prems" show ?thesis by (simp add: pow2_0)
  qed
qed

lemma scale_up_bounds:
  "0 < x \<Longrightarrow> x < 1 \<Longrightarrow> pow2 (scale_up x) \<le> x \<and> x < 2 * pow2 (scale_up x)"
proof (induction x rule: scale_up.induct)
  case (1 x)
  have su: "scale_up x = scale_up (2 * x) - 1"
    using "1.prems" scale_up.simps [of x] by simp
  have p: "pow2 (scale_up x) = pow2 (scale_up (2 * x)) / 2"
  proof -
    have "pow2 (scale_up (2 * x) + (- 1)) = pow2 (scale_up (2 * x)) * pow2 (- 1)"
      by (rule pow2_add)
    then show ?thesis unfolding su by (simp add: pow2_m1)
  qed
  show ?case
  proof (cases "2 * x < 1")
    case True
    from "1.IH" [of] "1.prems" True have
      "pow2 (scale_up (2 * x)) \<le> 2 * x \<and> 2 * x < 2 * pow2 (scale_up (2 * x))" by simp
    with p show ?thesis by simp
  next
    case False
    then have "scale_up (2 * x) = 0" using scale_up.simps [of "2 * x"] by simp
    with p have "pow2 (scale_up x) = 1 / 2" by (simp add: pow2_0)
    with False "1.prems" show ?thesis by simp
  qed
qed

lemma exponent_bounds:
  assumes "0 < x"
  shows "pow2 (exponent x) \<le> x \<and> x < 2 * pow2 (exponent x)"
  using assms scale_down_bounds [of x] scale_up_bounds [of x]
  by (cases "1 \<le> x") (simp_all add: exponent_def)

lemma round_half_even_error: "\<bar>of_int (round_half_even y) - y\<bar> \<le> 1 / 2"
proof -
  have "of_int \<lfloor>y\<rfloor> \<le> y" "y < of_int \<lfloor>y\<rfloor> + 1" by linarith+
  then show ?thesis by (auto simp: round_half_even_def Let_def)
qed

lemma rnd_error: "\<bar>rnd x - x\<bar> \<le> \<bar>x\<bar> / 2 ^ 53"
proof (cases "x = 0")
  case True
  then show ?thesis by (simp add: rnd_def)
next
  case False
  define e where "e = exponent \<bar>x\<bar> - 52"
  define p where "p = pow2 e"
  have ppos: "0 < p" by (simp add: p_def pow2_pos)
  have "pow2 (exponent \<bar>x\<bar>) = pow2 (e + 52)" by (simp add: e_def)
  also have "\<dots> = p * 2 ^ 52" by (simp add: pow2_add pow2_52 p_def)
  finally have pe: "pow2 (exponent \<bar>x\<bar>) = p * 2 ^ 52" .
  from exponent_bounds [of "\<bar>x\<bar>"] False have lo: "p * 2 ^ 52 \<le> \<bar>x\<bar>" by (simp add: pe)
  have r: "rnd x = of_int (round_half_even (x / p)) * p"
    using False by (simp add: rnd_def Let_def e_def p_def)
  have "rnd x - x = (of_int (round_half_even (x / p)) - x / p) * p"
    using ppos by (simp add: r field_simps)
  then have "\<bar>rnd x - x\<bar> = \<bar>of_int (round_half_even (x / p)) - x / p\<bar> * p"
    using ppos by (simp add: abs_mult)
  also have "\<dots> \<le> (1 / 2) * p"
    using round_half_even_error [of "x / p"] ppos by (intro mult_right_mono) simp_all
  also have "\<dots> = (p * 2 ^ 52) / 2 ^ 53" by simp
  also have "\<dots> \<le> \<bar>x\<bar> / 2 ^ 53" using lo by (intro divide_right_mono) simp_all
  finally show ?thesis .
qed

lemma rnd_bounds:
  assumes "0 \<le> x"
  shows "x * (1 - 1 / 2 ^ 53) \<le> rnd x" and "rnd x \<le> x * (1 + 1 / 2 ^ 53)"
proof -
  from rnd_error [of x] assms have "\<bar>rnd x - x\<bar> \<le> x / 2 ^ 53" by simp
  then have "x - x / 2 ^ 53 \<le> rnd x" "rnd x \<le> x + x / 2 ^ 53" by linarith+
  then show "x * (1 - 1 / 2 ^ 53) \<le> rnd x" "rnd x \<le> x * (1 + 1 / 2 ^ 53)"
    by (simp_all add: algebra_simps)
qed

lemma V_set_after_bounds:
  assumes "0 < step"
  shows "real k * step * (1 - 1 / 2 ^ 53) ^ k \<le> V_set_after step k
         \<and> V_set_after step k \<le> real k * step * (1 + 1 / 2 ^ 53) ^ k"
proof (induction k)
  case 0
  show ?case by simp
next
  case (Suc k)
  define u :: real where "u = 1 / 2 ^ 53"
  define V where "V = V_set_after step k"
  have u: "0 < u" "u < 1" by (simp_all add: u_def)
  from Suc have lo: "real k * step * (1 - u) ^ k \<le> V" and hi: "V \<le> real k * step * (1 + u) ^ k"
    by (simp_all add: u_def V_def)
  have p1: "0 \<le> (1 - u) ^ k" "(1 - u) ^ k \<le> 1" using u by (simp_all add: power_le_one)
  have p2: "1 \<le> (1 + u) ^ k" using u by (simp add: one_le_power)
  have "0 \<le> real k * step * (1 - u) ^ k" using assms p1 by simp
  with lo have V0: "0 \<le> V" by linarith
  then have x0: "0 \<le> V + step" using assms by simp
  have s1: "step * (1 - u) ^ k \<le> step" using assms p1 by (simp add: mult_left_le)
  have s2: "step \<le> step * (1 + u) ^ k" using assms p2 by simp
  have "real (Suc k) * step * (1 - u) ^ Suc k
          = (real k * step * (1 - u) ^ k + step * (1 - u) ^ k) * (1 - u)"
    by (simp add: algebra_simps)
  also have "\<dots> \<le> (V + step) * (1 - u)"
    using lo s1 u by (intro mult_right_mono) simp_all
  also have "\<dots> \<le> rnd (V + step)" using rnd_bounds(1) [OF x0] by (simp add: u_def)
  finally have a: "real (Suc k) * step * (1 - u) ^ Suc k \<le> V_set_after step (Suc k)"
    by (simp add: V_def fadd_def)
  have "rnd (V + step) \<le> (V + step) * (1 + u)" using rnd_bounds(2) [OF x0] by (simp add: u_def)
  also have "\<dots> \<le> (real k * step * (1 + u) ^ k + step * (1 + u) ^ k) * (1 + u)"
    using hi s2 u by (intro mult_right_mono) simp_all
  also have "\<dots> = real (Suc k) * step * (1 + u) ^ Suc k" by (simp add: algebra_simps)
  finally have b: "V_set_after step (Suc k) \<le> real (Suc k) * step * (1 + u) ^ Suc k"
    by (simp add: V_def fadd_def)
  from a b show ?case by (simp add: u_def)
qed

lemma power_lower:
  fixes u :: real
  assumes "0 \<le> u" "u \<le> 1"
  shows "1 - real k * u \<le> (1 - u) ^ k"
  using Bernoulli_inequality [of "- u" k] assms by simp

lemma power_upper:
  fixes u :: real
  assumes "0 \<le> u" "2 * real k * u \<le> 1"
  shows "(1 + u) ^ k \<le> 1 + 2 * real k * u"
  using assms(2)
proof (induction k)
  case 0
  show ?case by simp
next
  case (Suc k)
  have ku: "0 \<le> real k * u" using assms(1) by simp
  from Suc.prems have h: "2 * real k * u + 2 * u \<le> 1" by (simp add: algebra_simps)
  then have "2 * real k * u \<le> 1" using assms(1) by linarith
  from Suc.IH [OF this] have "(1 + u) ^ k \<le> 1 + 2 * real k * u" .
  then have "(1 + u) ^ Suc k \<le> (1 + 2 * real k * u) * (1 + u)"
    using assms(1) by (simp add: mult_right_mono mult.commute)
  also have "\<dots> = 1 + 2 * real k * u + u + (2 * real k * u) * u" by (simp add: algebra_simps)
  also have "\<dots> \<le> 1 + 2 * real k * u + u + 1 * u"
    using h assms(1) ku by (intro add_left_mono mult_right_mono) linarith+
  also have "\<dots> = 1 + 2 * real (Suc k) * u" by (simp add: algebra_simps)
  finally show ?case .
qed

lemma V_set_reaches:
  assumes "0 < step" and "0 < V" and "nat \<lceil>V / step\<rceil> < 2 ^ 26"
  shows "\<not> V_set_after step (nat \<lceil>V / step\<rceil> + 1) < V"
proof -
  define c where "c = nat \<lceil>V / step\<rceil>"
  define u :: real where "u = 1 / 2 ^ 53"
  define m where "m = real (c + 1)"
  have u: "0 \<le> u" "u \<le> 1" by (simp_all add: u_def)
  have "0 < V / step" using assms by simp
  then have rc: "real c = of_int \<lceil>V / step\<rceil>" by (simp add: c_def)
  have "V / step \<le> real c" unfolding rc by linarith
  then have Vc: "V \<le> real c * step" using assms(1) by (simp add: pos_divide_le_eq)
  have "c < 2 ^ 26" using assms(3) unfolding c_def .
  then have "c + 1 \<le> 2 ^ 26" by simp
  then have "real (c + 1) \<le> real (2 ^ 26)" by (rule of_nat_mono)
  then have m: "1 \<le> m" "m \<le> 2 ^ 26" by (simp_all add: m_def)
  have "m * m \<le> 2 ^ 26 * 2 ^ 26" using m by (intro mult_mono) simp_all
  then have "m * m * u \<le> 2 ^ 26 * 2 ^ 26 * u" using u by (intro mult_right_mono) simp_all
  also have "\<dots> \<le> 1" by (simp add: u_def)
  finally have mm: "m * m * u \<le> 1" .
  have "real c = m - 1" by (simp add: m_def)
  also have "\<dots> \<le> m - m * m * u" using mm by simp
  also have "\<dots> = m * (1 - m * u)" by (simp add: algebra_simps)
  also have "\<dots> \<le> m * (1 - u) ^ (c + 1)"
    using power_lower [OF u, of "c + 1"] m by (intro mult_left_mono) (simp_all add: m_def)
  finally have "real c * step \<le> m * (1 - u) ^ (c + 1) * step"
    using assms(1) by (intro mult_right_mono) simp_all
  also have "\<dots> = real (c + 1) * step * (1 - u) ^ (c + 1)" by (simp add: m_def algebra_simps)
  also have "\<dots> \<le> V_set_after step (c + 1)"
    using V_set_after_bounds [OF assms(1), of "c + 1"] by (simp add: u_def)
  finally have "V \<le> V_set_after step (c + 1)" using Vc by linarith
  then show ?thesis by (simp add: c_def)
qed

lemma V_set_below:
  assumes "0 < step" and "0 < V" and "nat \<lceil>V / step\<rceil> < 2 ^ 26"
    and "k + 2 \<le> nat \<lceil>V / step\<rceil>"
  shows "V_set_after step k < V"
proof -
  define c where "c = nat \<lceil>V / step\<rceil>"
  define u :: real where "u = 1 / 2 ^ 53"
  define m where "m = real k"
  have u: "0 \<le> u" by (simp add: u_def)
  have "0 < V / step" using assms by simp
  then have rc: "real c = of_int \<lceil>V / step\<rceil>" by (simp add: c_def)
  have "real c - 1 < V / step" unfolding rc by linarith
  then have Vc: "(real c - 1) * step < V" using assms(1) by (simp add: pos_less_divide_eq)
  have "c < 2 ^ 26" "k + 2 \<le> c" using assms(3,4) unfolding c_def .
  then have "k \<le> 2 ^ 26" by simp
  then have "real k \<le> real (2 ^ 26)" by (rule of_nat_mono)
  then have m: "0 \<le> m" "m \<le> 2 ^ 26" by (simp_all add: m_def)
  have "m * m \<le> 2 ^ 26 * 2 ^ 26" using m by (intro mult_mono) simp_all
  then have "m * m * u \<le> 2 ^ 26 * 2 ^ 26 * u" using u by (intro mult_right_mono) simp_all
  also have "\<dots> = 1 / 2" by (simp add: u_def)
  finally have mm: "2 * (m * m * u) \<le> 1" by simp
  have "2 * m * u \<le> 2 * 2 ^ 26 * u" using m u by (intro mult_right_mono mult_left_mono) simp_all
  also have "\<dots> \<le> 1" by (simp add: u_def)
  finally have mu: "2 * real k * u \<le> 1" by (simp add: m_def)
  have "m * (1 + u) ^ k \<le> m * (1 + 2 * real k * u)"
    using power_upper [OF u mu] m by (intro mult_left_mono) simp_all
  also have "\<dots> = m + 2 * (m * m * u)" by (simp add: m_def algebra_simps)
  also have "\<dots> \<le> m + 1" using mm by simp
  also have "\<dots> \<le> real c - 1"
  proof -
    have "k + 2 \<le> c" using assms(4) unfolding c_def .
    then have "real (k + 2) \<le> real c" by (rule of_nat_mono)
    then show ?thesis by (simp add: m_def)
  qed
  finally have "m * (1 + u) ^ k * step \<le> (real c - 1) * step"
    using assms(1) by (intro mult_right_mono) simp_all
  moreover have "V_set_after step k \<le> real k * step * (1 + u) ^ k"
    using V_set_after_bounds [OF assms(1), of k] by (simp add: u_def)
  ultimately have "V_set_after step k \<le> (real c - 1) * step"
    by (simp add: m_def algebra_simps)
  with Vc show ?thesis by linarith
qed

section \<open>The update rule of the tracking loop\<close>


lemma track_cycle_session0:
  "track_cycle session0 0 1 (Response [1 / 2, - (1 / 64), 1]) = Inr (session1, 1 / 128, 1)"
  by code_simp


text \<open>The directions on the sequence of powers 1.0, 1.2, 0.9, 0.9, 1.1.\<close>

lemma lit_values:
  "lit 1 = 1"
  "lit (12 / 10) = 5404319552844595 / 4503599627370496"
  "lit (6 / 5) = 5404319552844595 / 4503599627370496"
  "lit (9 / 10) = 8106479329266893 / 9007199254740992"
  "lit (11 / 10) = 2476979795053773 / 2251799813685248"
  by (simp_all add: float_defs)

lemma po_directions_tie:
  "po_directions s previous_power 1 [lit 1, lit (12 / 10), lit (9 / 10), lit (9 / 10), lit (11 / 10)]
     \<noteq> [1, 1, - 1, - 1, 1]"
  by (simp add: lit_values perturb_observe_def Let_def)

text \<open>
  C5, as the specification states it: from direction +1 the powers 1.0, 1.2, 0.9, 0.9, 1.1
  give the directions +1, +1, -1, -1, +1. The code gives another sequence, whether the
  power before the first reading was below, at or above 1.0.
\<close>

theorem C5_directions_counterexample:
  "po_directions session0 0 1 [lit 1, lit (12 / 10), lit (9 / 10), lit (9 / 10), lit (11 / 10)]
     \<noteq> [1, 1, - 1, - 1, 1]
   \<and> po_directions session0 (lit 1) 1
         [lit 1, lit (12 / 10), lit (9 / 10), lit (9 / 10), lit (11 / 10)]
     \<noteq> [1, 1, - 1, - 1, 1]
   \<and> po_directions session0 2 1
         [lit 1, lit (12 / 10), lit (9 / 10), lit (9 / 10), lit (11 / 10)]
     \<noteq> [1, 1, - 1, - 1, 1]"
  by code_simp

text \<open>
  C5, amended: when the power before the first reading is below 1.0, the directions are
  +1, +1, -1, +1, +1. The equal power of the fourth reading counts as not improved, and
  so it reverses the direction once more, from -1 to +1; the fifth reading improves and
  keeps +1.
\<close>

theorem C5_directions:
  assumes "previous_power < lit 1"
  shows "po_directions s previous_power 1
           [lit 1, lit (12 / 10), lit (9 / 10), lit (9 / 10), lit (11 / 10)]
         = [1, 1, - 1, 1, 1]"
  using assms by (simp add: lit_values perturb_observe_def Let_def)

theorem C5_directions_witness:
  "(0 :: float) < lit 1
   \<and> po_directions session0 0 1
        [lit 1, lit (12 / 10), lit (9 / 10), lit (9 / 10), lit (11 / 10)]
      = [1, 1, - 1, 1, 1]"
proof -
  have h: "(0 :: float) < lit 1" by code_simp
  from C5_directions [OF h, of session0] h show ?thesis by blast
qed

section \<open>Complete runs\<close>

text \<open>The run of \<open>env0\<close>: it blocks in the tracking loop, after one tracking cycle.\<close>

lemma run_env0:
  "(case main args0 env0 of
      AwaitTrack s previous_power direction \<Rightarrow>
        Voc s = 1 / 2 \<and> Vmpp s = 3 / 4 \<and> length (v_data s) = 3
        \<and> log_file s = [(1, 0, 0), (2, 1 / 4, 0)]
    | _ \<Rightarrow> False)"
  by code_simp

text \<open>
  C1, as the specification states it: after the sweep, \<open>0 \<le> Vmpp \<le> Voc\<close> at every point.
  In the run of \<open>env0\<close> the sweep leaves \<open>Vmpp = Voc = 0.5\<close>, the walk-in takes two cycles
  of 0.25 V, and the first tracking cycle reads a power above the previous one: \<open>Vmpp\<close>
  is stepped to 0.75, above \<open>Voc\<close>.
\<close>

theorem C1_bounds_counterexample:
  "(case main args0 env0 of
      AwaitTrack s previous_power direction \<Rightarrow>
        Voc s = 1 / 2 \<and> Vmpp s = 3 / 4 \<and> \<not> (0 \<le> Vmpp s \<and> Vmpp s \<le> Voc s)
    | _ \<Rightarrow> False)"
  using run_env0 by (simp split: outcome.splits)

text \<open>
  C2, at a run that ends by the timeout: the last reading comes 11 s after the start, the
  limit is 10 s. \<open>shutdown\<close> closes the shutter and releases the task once, closes the log
  and exits with status 0, but it sends nothing to the Keithley: the output, switched on
  for the sweep, is still on, and the instrument is never closed.
\<close>

theorem C2_timeout_leaves_output_on:
  "(case main args0 (env0\<lparr>events := events env0 @ [Response [3 / 4, 0, 111]]\<rparr>) of
      Raised x s \<Rightarrow>
        x = SystemExit 0 \<and> log_closed s
        \<and> map_option line (task s) = Some True \<and> map_option t_closed (task s) = Some 1
        \<and> output_on False (written (K2400 s))
        \<and> opened (K2400 s) = 1 \<and> k_closed (K2400 s) = 0
    | _ \<Rightarrow> False)"
  by code_simp

text \<open>
  C3, at a run in which the user interrupts the first cycle of the walk-in: the
  \<open>KeyboardInterrupt\<close> leaves the method uncaught, \<open>shutdown\<close> does not run, the log is not
  closed and the shutter stays open.
\<close>

theorem C3_interrupt_in_walk_in:
  "(case main args0 (env0\<lparr>events := [Response [0, 0, 100], Interrupt]\<rparr>) of
      Raised x s \<Rightarrow>
        x = KeyboardInterrupt \<and> \<not> log_closed s
        \<and> map_option line (task s) = Some False \<and> map_option t_closed (task s) = Some 0
    | _ \<Rightarrow> False)"
  by code_simp

text \<open>In the tracking loop the same interrupt is caught: \<open>shutdown\<close> runs and the process
  exits with status 0.\<close>

lemma interrupt_in_track:
  "(case main args0 (env0\<lparr>events := events env0 @ [Interrupt]\<rparr>) of
      Raised x s \<Rightarrow>
        x = SystemExit 0 \<and> log_closed s
        \<and> map_option line (task s) = Some True \<and> map_option t_closed (task s) = Some 1
    | _ \<Rightarrow> False)"
  by code_simp

text \<open>
  C8, at the run of \<open>env0\<close>: two cycles of the walk-in and one cycle of the tracking loop
  are complete, three samples are recorded for the plot, and the log file holds the two
  records of the walk-in only.
\<close>

theorem C8_track_cycle_not_logged:
  "(case main args0 env0 of
      AwaitTrack s previous_power direction \<Rightarrow>
        length (v_data s) = 3
        \<and> log_file s = [(1, 0, 0), (2, 1 / 4, 0)]
    | _ \<Rightarrow> False)"
  using run_env0 by (simp split: outcome.splits)

text \<open>
  C9, at a run in which the constructor \<open>Task()\<close> raises: the handler prints its message
  and then raises \<open>UnboundLocalError\<close>, which ends the program before tracking.
\<close>

theorem C9_task_constructor_fails:
  "(case main args0 (env0\<lparr>daq_fails := (\<lambda>st. st = NewTask)\<rparr>) of
      Raised x s \<Rightarrow>
        x = UnboundLocalError
        \<and> last (console s) = ''Could not initialise shutter control. Manually control shutter.''
    | _ \<Rightarrow> False)"
  by code_simp

section \<open>The bounds of Vmpp\<close>

text \<open>
  C1, amended: the code keeps no bound on \<open>Vmpp\<close>. The sweep sets \<open>Vmpp\<close> to one of the
  measured voltages of the sweep and leaves \<open>Voc\<close> as measured before it; a cycle of the
  walk-in changes neither; a cycle of the tracking loop moves \<open>Vmpp\<close> by one step,
  \<open>Vmpp + direction * v_step\<close> with the direction +1 or -1 that the cycle chose, without
  clamping to \<open>[0, Voc]\<close>, and changes neither \<open>Voc\<close> nor the step.
\<close>

theorem C1_vmpp_steps:
  "(analyse_sweep s rows = Inr s1 \<longrightarrow> Vmpp s1 \<in> set (map fst rows) \<and> Voc s1 = Voc s)
   \<and> (walk_cycle s V_set e = Inr (s2, V_set', v, i) \<longrightarrow> Vmpp s2 = Vmpp s \<and> Voc s2 = Voc s)
   \<and> (track_cycle s previous_power direction e' = Inr (s3, previous_power', direction')
        \<and> (direction = 1 \<or> direction = - 1)
      \<longrightarrow> (direction' = 1 \<or> direction' = - 1)
          \<and> Vmpp s3 = fadd (Vmpp s) (fmul (of_int direction') (v_step s))
          \<and> Voc s3 = Voc s \<and> v_step s3 = v_step s)"
proof (intro conjI impI)
  assume a: "analyse_sweep s rows = Inr s1"
  then have ne: "rows \<noteq> []" by (auto simp: analyse_sweep_def Let_def)
  from a have s1: "s1 = s\<lparr>Isc := fst (snd (last rows)),
                        Vmpp := fst (rows ! argmax (sweep_power rows))\<rparr>"
    by (simp add: analyse_sweep_ok [OF ne])
  then show "Voc s1 = Voc s" by simp
  have "argmax (sweep_power rows) < length rows"
    using argmax_max [of "sweep_power rows"] ne by (simp add: sweep_power_def)
  then have "fst (rows ! argmax (sweep_power rows)) \<in> set (map fst rows)"
    by (metis length_map nth_map nth_mem)
  with s1 show "Vmpp s1 \<in> set (map fst rows)" by simp
next
  assume "walk_cycle s V_set e = Inr (s2, V_set', v, i)"
  from walk_cycle_Inr(3,5) [OF this] show "Vmpp s2 = Vmpp s" "Voc s2 = Voc s" .
next
  assume a: "track_cycle s previous_power direction e' = Inr (s3, previous_power', direction')
        \<and> (direction = 1 \<or> direction = - 1)"
  from track_cycle_Inr [OF conjunct1 [OF a]] obtain v i and tx :: float and s' where
    po: "(s3, previous_power', direction')
           = perturb_observe s' previous_power direction (fabs (fmul v i))"
    and same: "Vmpp s' = Vmpp s" "v_step s' = v_step s" "Voc s' = Voc s" by blast
  from po same a show "direction' = 1 \<or> direction' = - 1"
    "Vmpp s3 = fadd (Vmpp s) (fmul (of_int direction') (v_step s))"
    "Voc s3 = Voc s" "v_step s3 = v_step s"
    by (auto simp: perturb_observe_def Let_def split: if_splits)
qed

theorem C1_vmpp_steps_witness:
  "Vmpp (session0\<lparr>Isc := 0, Vmpp := 1 / 2\<rparr>) \<in> set (map fst [(1 / 2, 0, 0), (1 / 4, 0, 1 / 20)])
   \<and> (\<exists>s2 V' v i. walk_cycle session0 0 (Response [0, 0, 1]) = Inr (s2, V', v, i)
         \<and> Vmpp s2 = Vmpp session0 \<and> Voc s2 = Voc session0)
   \<and> Vmpp session1 = fadd (Vmpp session0) (fmul (of_int 1) (v_step session0))
   \<and> Voc session1 = Voc session0"
proof -
  have p: "sweep_power [(1 / 2, 0, 0), (1 / 4, 0, 1 / 20)] = [0, 0]"
    by (simp add: sweep_power_def fmul_def rnd_def fabs_def)
  have h1: "analyse_sweep session0 [(1 / 2, 0, 0), (1 / 4, 0, 1 / 20)]
              = Inr (session0\<lparr>Isc := 0, Vmpp := 1 / 2\<rparr>)"
    by (simp add: analyse_sweep_ok p)
  have it: "in_time session0 (Response [0, 0, 1])" by (simp add: session0_def float_defs)
  have ar: "device_area session0 \<noteq> 0" by (simp add: session0_def)
  from walk_cycle_ok [OF it ar, of 0] obtain s2 v i where
    h2: "walk_cycle session0 0 (Response [0, 0, 1]) = Inr (s2, fadd 0 (v_step session0), v, i)"
    by blast
  note h3 = track_cycle_session0
  note t = C1_vmpp_steps [where s = session0 and rows = "[(1 / 2, 0, 0), (1 / 4, 0, 1 / 20)]"
      and ?s1.0 = "session0\<lparr>Isc := 0, Vmpp := 1 / 2\<rparr>"
      and V_set = 0 and e = "Response [0, 0, 1]" and ?s2.0 = s2
      and V_set' = "fadd 0 (v_step session0)" and v = v and i = i
      and previous_power = 0 and direction = 1 and e' = "Response [1 / 2, - (1 / 64), 1]"
      and ?s3.0 = session1 and previous_power' = "1 / 128" and direction' = 1]
  from t h1 h2 h3 show ?thesis by auto
qed

section \<open>The initial maximum power point\<close>

text \<open>
  C6, amended: for a sweep that answers with at least one row of three values (and an
  open-circuit reading and a step that the instrument answers), \<open>determine_initial_Vmpp\<close>
  succeeds, its index \<open>mpp_ind = argmax p\<close> is in range and \<open>p[mpp_ind] \<ge> p[k]\<close> for every
  row \<open>k\<close>, where \<open>p[k] = abs(v[k]*i[k])\<close>, and \<open>Vmpp = v[mpp_ind]\<close>. When the power is zero
  at every point, \<open>mpp_ind\<close> is 0 and \<open>Vmpp\<close> is the first voltage measured in the sweep,
  \<open>v[0]\<close>, which is a defined outcome.
\<close>

theorem C6_initial_mpp:
  assumes "read3 voc_e = Inr (voc, a, b)"
    and "query_ascii_values step_e = Inr (st # sts)"
    and "query_ascii_values sweep_e = Inr jv_sweep"
    and "reshape3 jv_sweep = Inr rows"
    and "rows \<noteq> []"
  shows "\<exists>s'. determine_initial_Vmpp s voc_e step_e sweep_e = Inr s'
           \<and> argmax (sweep_power rows) < length rows
           \<and> (\<forall>k < length rows.
                 sweep_power rows ! k = fabs (fmul (fst (rows ! k)) (fst (snd (rows ! k))))
                 \<and> sweep_power rows ! k \<le> sweep_power rows ! argmax (sweep_power rows))
           \<and> Vmpp s' = fst (rows ! argmax (sweep_power rows))
           \<and> ((\<forall>k < length rows. sweep_power rows ! k = 0)
                \<longrightarrow> argmax (sweep_power rows) = 0 \<and> Vmpp s' = fst (rows ! 0))"
proof -
  from determine_initial_Vmpp_ok [OF assms, of s] obtain s' where
    s': "determine_initial_Vmpp s voc_e step_e sweep_e = Inr s'"
      "Vmpp s' = fst (rows ! argmax (sweep_power rows))" by blast
  have len: "length (sweep_power rows) = length rows" by (simp add: sweep_power_def)
  with assms(5) have ne: "sweep_power rows \<noteq> []" by auto
  from argmax_max [OF ne] have
    m: "argmax (sweep_power rows) < length rows"
    and mx: "\<forall>k < length rows. sweep_power rows ! k \<le> sweep_power rows ! argmax (sweep_power rows)"
    by (simp_all add: len)
  have z: "(\<forall>k < length rows. sweep_power rows ! k = 0) \<longrightarrow> argmax (sweep_power rows) = 0"
    using argmax_all_equal [of "sweep_power rows" 0] by (simp add: len)
  from s' m mx z show ?thesis by (auto simp: sweep_power_nth)
qed

theorem C6_initial_mpp_witness:
  "\<exists>s'. determine_initial_Vmpp session0 (Response [1 / 2, 0, 0]) (Response [- (1 / 4)])
            (Response rows_peak) = Inr s'
        \<and> argmax (sweep_power [(1 / 2, 0, 0), (1 / 4, - (1 / 64), 1 / 20), (0, - (1 / 32), 1 / 10)]) = 1
        \<and> Vmpp s' = 1 / 4"
proof -
  have h1: "read3 (Response [1 / 2, 0, 0]) = Inr (1 / 2, 0, 0)" by (simp add: read3_def)
  have h2: "query_ascii_values (Response [- (1 / 4)]) = Inr (- (1 / 4) # [])" by simp
  have h3: "query_ascii_values (Response rows_peak) = Inr rows_peak" by simp
  have h4: "reshape3 rows_peak
              = Inr [(1 / 2, 0, 0), (1 / 4, - (1 / 64), 1 / 20), (0, - (1 / 32), 1 / 10)]"
    by (simp add: rows_peak_def)
  have h5: "[(1 / 2, 0, 0), (1 / 4, - (1 / 64), 1 / 20), (0, - (1 / 32), 1 / 10)]
              \<noteq> ([] :: (float \<times> float \<times> float) list)" by simp
  have m: "argmax (sweep_power [(1 / 2, 0, 0), (1 / 4, - (1 / 64), 1 / 20),
                                (0, - (1 / 32), 1 / 10)]) = 1"
    by (simp add: sweep_power_def float_defs)
  from C6_initial_mpp [OF h1 h2 h3 h4 h5, of session0] show ?thesis
  proof (elim exE conjE)
    fix s'
    assume d: "determine_initial_Vmpp session0 (Response [1 / 2, 0, 0]) (Response [- (1 / 4)])
                 (Response rows_peak) = Inr s'"
      and v: "Vmpp s' = fst ([(1 / 2, 0, 0), (1 / 4, - (1 / 64), 1 / 20),
                              (0, - (1 / 32), 1 / 10)]
                ! argmax (sweep_power [(1 / 2, 0, 0), (1 / 4, - (1 / 64), 1 / 20),
                                       (0, - (1 / 32), 1 / 10)]))"
    from v have "Vmpp s' = 1 / 4" by (simp only: m) simp
    with d m show ?thesis by (intro exI [of _ s'] conjI)
  qed
qed

text \<open>
  C6, as the specification states it: in that degenerate case \<open>Vmpp\<close> equals \<open>Voc\<close>. \<open>Voc\<close> is
  the open-circuit reading taken before the sweep, here 0.65004 V; the sweep starts at
  that value formatted to four decimals, and \<open>Vmpp\<close> is the voltage measured at its
  first point, here 0.65 V.
\<close>

theorem C6_initial_mpp_counterexample:
  "sweep_power [(lit (65 / 100), 0, 0), (lit (325 / 1000), 0, 1 / 20), (0, 0, 1 / 10)]
     = [0, 0, 0]
   \<and> (case determine_initial_Vmpp session0 (Response [lit (65004 / 100000), 0, 0])
             (Response [- lit (1085 / 1000000)]) (Response rows_dark) of
         Inr s' \<Rightarrow> Voc s' = lit (65004 / 100000) \<and> Vmpp s' = lit (65 / 100)
                     \<and> Vmpp s' \<noteq> Voc s'
       | Inl _ \<Rightarrow> False)"
proof -
  have h1: "read3 (Response [lit (65004 / 100000), 0, 0]) = Inr (lit (65004 / 100000), 0, 0)"
    by (simp add: read3_def)
  have h2: "query_ascii_values (Response [- lit (1085 / 1000000)])
              = Inr (- lit (1085 / 1000000) # [])" by simp
  have h3: "query_ascii_values (Response rows_dark) = Inr rows_dark" by simp
  have h4: "reshape3 rows_dark
              = Inr [(lit (65 / 100), 0, 0), (lit (325 / 1000), 0, 1 / 20), (0, 0, 1 / 10)]"
    by (simp add: rows_dark_def)
  have h5: "[(lit (65 / 100), 0, 0), (lit (325 / 1000), 0, 1 / 20), (0, 0, 1 / 10)]
              \<noteq> ([] :: (float \<times> float \<times> float) list)" by simp
  have p: "sweep_power [(lit (65 / 100), 0, 0), (lit (325 / 1000), 0, 1 / 20), (0, 0, 1 / 10)]
             = [0, 0, 0]"
    by (simp add: sweep_power_def fmul_def rnd_def fabs_def)
  have ne: "lit (65 / 100) \<noteq> lit (65004 / 100000)" by (simp add: float_defs)
  from determine_initial_Vmpp_ok [OF h1 h2 h3 h4 h5, of session0] obtain s' where
    "determine_initial_Vmpp session0 (Response [lit (65004 / 100000), 0, 0])
             (Response [- lit (1085 / 1000000)]) (Response rows_dark) = Inr s'"
    "Vmpp s' = lit (65 / 100)" "Voc s' = lit (65004 / 100000)"
    unfolding p by auto
  with p ne show ?thesis by simp
qed

section \<open>The cycles of the walk-in\<close>

text \<open>
  C7, amended: for every \<open>Vmpp > 0\<close> and step \<open>> 0\<close> with \<open>ceil(Vmpp / v_step) < 2\<^sup>2\<^sup>6\<close>, a
  non-zero device area and readings that arrive within the tracking time, the walk-in,
  which starts from \<open>V_set = 0\<close> and adds the step in every cycle, terminates and executes
  exactly \<open>n\<close> cycles (it consumes \<open>n\<close> readings and logs \<open>n\<close> records), where \<open>n\<close> is the
  least number of float additions of the step after which \<open>V_set\<close> is not below \<open>Vmpp\<close>.
  This \<open>n\<close> is \<open>ceil(Vmpp / v_step)\<close> up to the rounding of the sums:
  \<open>ceil(Vmpp / v_step) - 1 \<le> n \<le> ceil(Vmpp / v_step) + 1\<close>.
\<close>

theorem C7_walk_in_cycles:
  assumes "0 < Vmpp s" and "0 < v_step s" and "device_area s \<noteq> 0"
    and "nat \<lceil>Vmpp s / v_step s\<rceil> < 2 ^ 26"
    and "nat \<lceil>Vmpp s / v_step s\<rceil> + 1 \<le> length evs"
    and "\<forall>e \<in> set (take (nat \<lceil>Vmpp s / v_step s\<rceil> + 1) evs). in_time s e"
  shows "\<exists>n s' v' i'.
           nat \<lceil>Vmpp s / v_step s\<rceil> \<le> n + 1 \<and> n \<le> nat \<lceil>Vmpp s / v_step s\<rceil> + 1
           \<and> (\<forall>k < n. V_set_after (v_step s) k < Vmpp s)
           \<and> \<not> V_set_after (v_step s) n < Vmpp s
           \<and> walk_in s 0 v i evs = Inr (s', v', i', drop n evs)
           \<and> length (log_file s') = length (log_file s) + n"
proof -
  define c where "c = nat \<lceil>Vmpp s / v_step s\<rceil>"
  define n where "n = (LEAST n. \<not> V_set_after (v_step s) n < Vmpp s)"
  have r: "\<not> V_set_after (v_step s) (c + 1) < Vmpp s"
    unfolding c_def by (rule V_set_reaches [OF assms(2,1,4)])
  then have n1: "\<not> V_set_after (v_step s) n < Vmpp s" unfolding n_def by (rule LeastI)
  have n2: "n \<le> c + 1" unfolding n_def using r by (rule Least_le)
  have n3: "\<forall>k. 0 \<le> k \<and> k < n \<longrightarrow> V_set_after (v_step s) k < Vmpp s"
    using not_less_Least [of _ "\<lambda>n. \<not> V_set_after (v_step s) n < Vmpp s"]
    by (auto simp: n_def)
  have n4: "c \<le> n + 1"
  proof (rule ccontr)
    assume "\<not> c \<le> n + 1"
    then have "n + 2 \<le> c" by simp
    then have "n + 2 \<le> nat \<lceil>Vmpp s / v_step s\<rceil>" unfolding c_def .
    from V_set_below [OF assms(2,1,4) this] n1 show False by simp
  qed
  have "c + 1 \<le> length evs" using assms(5) unfolding c_def .
  with n2 have le: "n - 0 \<le> length evs" by simp
  have "set (take n evs) \<subseteq> set (take (c + 1) evs)" using n2 by (rule set_take_subset_set_take)
  moreover have "\<forall>e \<in> set (take (c + 1) evs). in_time s e" using assms(6) unfolding c_def .
  ultimately have ev: "\<forall>e \<in> set (take (n - 0) evs). in_time s e" by auto
  from walk_in_count [OF assms(3) n3 n1 _ le ev, of v i] obtain s' v' i' where
    "walk_in s 0 v i evs = Inr (s', v', i', drop n evs)"
    "length (log_file s') = length (log_file s) + n" by auto
  with n1 n2 n3 n4 have "c \<le> n + 1 \<and> n \<le> c + 1
           \<and> (\<forall>k < n. V_set_after (v_step s) k < Vmpp s)
           \<and> \<not> V_set_after (v_step s) n < Vmpp s
           \<and> walk_in s 0 v i evs = Inr (s', v', i', drop n evs)
           \<and> length (log_file s') = length (log_file s) + n" by simp
  then show ?thesis unfolding c_def by blast
qed

text \<open>The example of the specification: 0.62 V in steps of 0.01 V takes 62 cycles, which is
  the ceiling of the quotient.\<close>

theorem C7_walk_in_cycles_witness:
  "nat \<lceil>Vmpp session_62 / v_step session_62\<rceil> = 62
   \<and> (\<exists>s' v' i'. walk_in session_62 0 0 0 (replicate 63 (Response [0, 0, 1]))
                    = Inr (s', v', i', [Response [0, 0, 1]])
          \<and> length (log_file s') = 62)"
proof -
  have v: "Vmpp session_62 = lit (62 / 100)" "v_step session_62 = lit (1 / 100)"
    by (simp_all add: session_62_def session0_def)
  note ev = v [unfolded lit_def]
  have a1: "0 < Vmpp session_62" unfolding v by (simp add: float_defs)
  have a2: "0 < v_step session_62" unfolding v by (simp add: float_defs)
  have a3: "device_area session_62 \<noteq> 0" by (simp add: session_62_def session0_def)
  have c: "nat \<lceil>Vmpp session_62 / v_step session_62\<rceil> = 62"
    unfolding v by (simp add: float_defs)
  have a4: "nat \<lceil>Vmpp session_62 / v_step session_62\<rceil> < 2 ^ 26" unfolding c by simp
  have a5: "nat \<lceil>Vmpp session_62 / v_step session_62\<rceil> + 1
              \<le> length (replicate 63 (Response [0, 0, 1]))" unfolding c by simp
  have it: "in_time session_62 (Response [0, 0, 1])"
    by (simp add: session_62_def session0_def float_defs)
  then have a6: "\<forall>e \<in> set (take (nat \<lceil>Vmpp session_62 / v_step session_62\<rceil> + 1)
                                (replicate 63 (Response [0, 0, 1]))). in_time session_62 e"
    by simp
  have la: "leaves_after (V_set_after (v_step session_62) 0) (v_step session_62)
              (Vmpp session_62) 62"
    unfolding v by (simp add: leaves_after_numeral float_defs)
  from leaves_after_V_set_after [OF la] have
    b: "\<forall>k. k < 62 \<longrightarrow> V_set_after (v_step session_62) k < Vmpp session_62"
    and t: "\<not> V_set_after (v_step session_62) 62 < Vmpp session_62" by simp_all
  have lg: "length (log_file session_62) = 0" by (simp add: session_62_def session0_def)
  from C7_walk_in_cycles [OF a1 a2 a3 a4 a5 a6, of 0 0] obtain n s' v' i' where
    n: "\<forall>k < n. V_set_after (v_step session_62) k < Vmpp session_62"
      "\<not> V_set_after (v_step session_62) n < Vmpp session_62"
    and w: "walk_in session_62 0 0 0 (replicate 63 (Response [0, 0, 1]))
              = Inr (s', v', i', drop n (replicate 63 (Response [0, 0, 1])))"
      "length (log_file s') = length (log_file session_62) + n" by blast
  have "n = 62"
  proof (rule ccontr)
    assume "n \<noteq> 62"
    then consider "n < 62" | "62 < n" by linarith
    then show False
    proof cases
      case 1
      with b n(2) show False by simp
    next
      case 2
      with n(1) t show False by simp
    qed
  qed
  with w lg c show ?thesis by simp
qed

text \<open>
  C7, as the specification states it: for every \<open>Vmpp > 0\<close> and step \<open>> 0\<close> the walk-in runs
  \<open>ceil(Vmpp / v_step)\<close> cycles. With \<open>Vmpp = 1.0\<close> and a step of \<open>0.1\<close> the quotient is 10,
  in exact and in float division, but ten additions of 0.1 give 0.9999999999999999,
  which is below 1.0: the loop runs an eleventh cycle.
\<close>

theorem C7_walk_in_cycles_counterexample:
  "0 < Vmpp session_tenth \<and> 0 < v_step session_tenth
   \<and> nat \<lceil>Vmpp session_tenth / v_step session_tenth\<rceil> = 10
   \<and> nat \<lceil>fdiv (Vmpp session_tenth) (v_step session_tenth)\<rceil> = 10
   \<and> (case walk_in session_tenth 0 0 0 (replicate 12 (Response [0, 0, 1])) of
         Inr (s', v', i', rest) \<Rightarrow> length rest = 1 \<and> length (log_file s') = 11
       | Inl _ \<Rightarrow> False)"
proof -
  have v: "Vmpp session_tenth = 1"
    "v_step session_tenth = 3602879701896397 / 36028797018963968"
    by (simp_all add: session_tenth_def session0_def float_defs)
  have c: "nat \<lceil>Vmpp session_tenth / v_step session_tenth\<rceil> = 10"
    "nat \<lceil>fdiv (Vmpp session_tenth) (v_step session_tenth)\<rceil> = 10"
    unfolding v by (simp_all add: float_defs)
  have la: "leaves_after 0 (v_step session_tenth) (Vmpp session_tenth) 11"
    unfolding v by (simp add: leaves_after_numeral float_defs)
  have ar: "device_area session_tenth \<noteq> 0" by (simp add: session_tenth_def session0_def)
  have it: "in_time session_tenth (Response [0, 0, 1])"
    by (simp add: session_tenth_def session0_def float_defs)
  then have ev: "\<forall>e \<in> set (take 11 (replicate 12 (Response [0, 0, 1]))). in_time session_tenth e"
    by simp
  have lg: "length (log_file session_tenth) = 0" by (simp add: session_tenth_def session0_def)
  from walk_in_leaves [OF la ar _ ev, of 0 0] obtain s' v' i' where
    "walk_in session_tenth 0 0 0 (replicate 12 (Response [0, 0, 1]))
       = Inr (s', v', i', drop 11 (replicate 12 (Response [0, 0, 1])))"
    "length (log_file s') = length (log_file session_tenth) + 11" by auto
  then have "(case walk_in session_tenth 0 0 0 (replicate 12 (Response [0, 0, 1])) of
         Inr (s', v', i', rest) \<Rightarrow> length rest = 1 \<and> length (log_file s') = 11
       | Inl _ \<Rightarrow> False)" by (simp add: lg)
  with v c show ?thesis by simp
qed

text \<open>The count can also be one below the ceiling: three additions of 0.1 give
  0.30000000000000004, and with this \<open>Vmpp\<close> the quotient is above 3, its ceiling is 4, and
  the walk-in runs 3 cycles.\<close>

lemma walk_in_below_ceiling:
  "nat \<lceil>Vmpp session_three / v_step session_three\<rceil> = 4
   \<and> (case walk_in session_three 0 0 0 (replicate 5 (Response [0, 0, 1])) of
         Inr (s', v', i', rest) \<Rightarrow> length rest = 2 \<and> length (log_file s') = 3
       | Inl _ \<Rightarrow> False)"
proof -
  have v: "Vmpp session_three = 1351079888211149 / 4503599627370496"
    "v_step session_three = 3602879701896397 / 36028797018963968"
    by (simp_all add: session_three_def session0_def float_defs)
  have c: "nat \<lceil>Vmpp session_three / v_step session_three\<rceil> = 4"
    unfolding v by simp
  have la: "leaves_after 0 (v_step session_three) (Vmpp session_three) 3"
    unfolding v by (simp add: leaves_after_numeral float_defs)
  have ar: "device_area session_three \<noteq> 0" by (simp add: session_three_def session0_def)
  have it: "in_time session_three (Response [0, 0, 1])"
    by (simp add: session_three_def session0_def float_defs)
  then have ev: "\<forall>e \<in> set (take 3 (replicate 5 (Response [0, 0, 1]))). in_time session_three e"
    by simp
  have lg: "length (log_file session_three) = 0" by (simp add: session_three_def session0_def)
  from walk_in_leaves [OF la ar _ ev, of 0 0] obtain s' v' i' where
    "walk_in session_three 0 0 0 (replicate 5 (Response [0, 0, 1]))
       = Inr (s', v', i', drop 3 (replicate 5 (Response [0, 0, 1])))"
    "length (log_file s') = length (log_file session_three) + 3" by auto
  then have "(case walk_in session_three 0 0 0 (replicate 5 (Response [0, 0, 1])) of
         Inr (s', v', i', rest) \<Rightarrow> length rest = 2 \<and> length (log_file s') = 3
       | Inl _ \<Rightarrow> False)" by (simp add: lg)
  with c show ?thesis by simp
qed

text \<open>When no sum of the loop is rounded, the count is the ceiling.\<close>

lemma V_set_after_exact:
  assumes "\<forall>k \<in> {1..n}. rnd (real k * step) = real k * step" and "k \<le> n"
  shows "V_set_after step k = real k * step"
  using assms(2)
proof (induction k)
  case 0
  then show ?case by simp
next
  case (Suc k)
  then have "V_set_after step k = real k * step" by simp
  then have "V_set_after step (Suc k) = rnd (real (Suc k) * step)"
    by (simp add: fadd_def algebra_simps)
  also have "\<dots> = real (Suc k) * step"
  proof -
    have "Suc k \<in> {1..n}" using Suc.prems by simp
    with assms(1) show ?thesis by (rule bspec)
  qed
  finally show ?case .
qed

lemma walk_in_exact_cycles:
  assumes "0 < Vmpp s" and "0 < v_step s" and "device_area s \<noteq> 0"
    and "\<forall>k \<in> {1..nat \<lceil>Vmpp s / v_step s\<rceil>}. rnd (real k * v_step s) = real k * v_step s"
    and "nat \<lceil>Vmpp s / v_step s\<rceil> \<le> length evs"
    and "\<forall>e \<in> set (take (nat \<lceil>Vmpp s / v_step s\<rceil>) evs). in_time s e"
  shows "\<exists>s' v' i'. walk_in s 0 v i evs
                      = Inr (s', v', i', drop (nat \<lceil>Vmpp s / v_step s\<rceil>) evs)
           \<and> length (log_file s') = length (log_file s) + nat \<lceil>Vmpp s / v_step s\<rceil>
           \<and> Vmpp s' = Vmpp s"
proof -
  define n where "n = nat \<lceil>Vmpp s / v_step s\<rceil>"
  have q: "0 < Vmpp s / v_step s" using assms(1,2) by simp
  then have c: "0 < \<lceil>Vmpp s / v_step s\<rceil>" by simp
  then have rn: "real n = of_int \<lceil>Vmpp s / v_step s\<rceil>" by (simp add: n_def)
  have ex: "\<And>k. k \<le> n \<Longrightarrow> V_set_after (v_step s) k = real k * v_step s"
    using V_set_after_exact [of n "v_step s"] assms(4) by (simp add: n_def)
  have below: "\<forall>k. 0 \<le> k \<and> k < n \<longrightarrow> V_set_after (v_step s) k < Vmpp s"
  proof (intro allI impI)
    fix k assume k: "0 \<le> k \<and> k < n"
    then have "real k \<le> real n - 1" by linarith
    also have "\<dots> < Vmpp s / v_step s" unfolding rn by linarith
    finally have "real k * v_step s < Vmpp s" using assms(2) by (simp add: pos_less_divide_eq)
    with ex [of k] k show "V_set_after (v_step s) k < Vmpp s" by simp
  qed
  have "Vmpp s / v_step s \<le> real n" unfolding rn by linarith
  then have "Vmpp s \<le> real n * v_step s" using assms(2) by (simp add: pos_divide_le_eq)
  with ex [of n] have above: "\<not> V_set_after (v_step s) n < Vmpp s" by simp
  from walk_in_count [OF assms(3) below above, of evs v i] assms(5,6)
  show ?thesis by (simp add: n_def)
qed

section \<open>The first comparison of the tracking loop\<close>

text \<open>
  C10, amended: the \<open>previous_power\<close> that the first comparison of the tracking loop uses
  is \<open>abs(v*i)\<close> of the last reading of the walk-in; when the walk-in runs no cycle, which
  is the case exactly when \<open>Vmpp \<le> 0\<close>, it is \<open>abs(v*i)\<close> of the first reading of
  \<open>track_maximum_power_point\<close>, the one that gives \<open>start_time\<close>. That reading is taken after
  the sweep, which has set the source to \<open>Voc\<close> and switched the output on, and after the two
  commands \<open>:source:voltage:mode fixed\<close> and \<open>:trigger:count 1\<close>; the method itself has
  written no \<open>:source:voltage\<close> command before it.

  In the theorem the readings \<open>es\<close> that follow the first reading \<open>e\<close> are those of the
  walk-in and one more, \<open>e1\<close>, and the program blocks in the second query of the tracking
  loop: the direction and the \<open>Vmpp\<close> it has then are those of the comparison of the power
  of \<open>e1\<close> with \<open>abs(v' * i')\<close>.
\<close>

theorem C10_previous_power:
  assumes "read3 e = Inr (v0, i0, t0)"
    and "walk_in ((kwrites s [Fixed '':source:voltage:mode fixed'', Fixed '':trigger:count 1''])
                    \<lparr>start_time := t0\<rparr>) 0 v0 i0 es = Inr (s2, v', i', [e1])"
    and "walk_and_track s (e # es) = AwaitTrack sF previous_power direction"
  shows "(\<exists>v1 i1 t1. read3 e1 = Inr (v1, i1, t1)
            \<and> direction = (if fabs (fmul v1 i1) > fabs (fmul v' i') then 1 else - 1)
            \<and> previous_power = fabs (fmul v1 i1)
            \<and> Vmpp sF = fadd (Vmpp s) (fmul (of_int direction) (v_step s)))
         \<and> (\<exists>n. Suc n = length es \<and> es ! n = e1 \<and> (n = 0 \<longleftrightarrow> Vmpp s \<le> 0)
              \<and> (if n = 0
                  then v' = v0 \<and> i' = i0
                       \<and> written (K2400 s2)
                           = written (K2400 s) @ [Fixed '':source:voltage:mode fixed'',
                                                  Fixed '':trigger:count 1'']
                  else \<exists>tx. read3 (es ! (n - 1)) = Inr (v', i', tx)))"
proof -
  define s1 where "s1 = (kwrites s [Fixed '':source:voltage:mode fixed'',
                                    Fixed '':trigger:count 1''])\<lparr>start_time := t0\<rparr>"
  have s1: "Vmpp s1 = Vmpp s" "v_step s1 = v_step s"
    "written (K2400 s1) = written (K2400 s) @ [Fixed '':source:voltage:mode fixed'',
                                               Fixed '':trigger:count 1'']"
    by (simp_all add: s1_def kwrites_def kwrite_def)
  from assms(2) have w: "walk_in s1 0 v0 i0 es = Inr (s2, v', i', [e1])" by (simp add: s1_def)
  from walk_in_exit [OF w] obtain n where
    same: "Vmpp s2 = Vmpp s1" "v_step s2 = v_step s1"
    and n: "n \<le> length es" "[e1] = drop n es" "n = 0 \<longleftrightarrow> \<not> 0 < Vmpp s1"
      "if n = 0 then v' = v0 \<and> i' = i0 \<and> s2 = s1
       else \<exists>tx. read3 (es ! (n - 1)) = Inr (v', i', tx)"
    by blast
  from n(2) have "length (drop n es) = 1" by (metis length_Cons list.size(3) One_nat_def)
  with n(1) have len: "Suc n = length es" by simp
  from n(2) have nth: "es ! n = e1" by (metis nth_via_drop)
  have part2: "\<exists>n. Suc n = length es \<and> es ! n = e1 \<and> (n = 0 \<longleftrightarrow> Vmpp s \<le> 0)
              \<and> (if n = 0
                  then v' = v0 \<and> i' = i0
                       \<and> written (K2400 s2)
                           = written (K2400 s) @ [Fixed '':source:voltage:mode fixed'',
                                                  Fixed '':trigger:count 1'']
                  else \<exists>tx. read3 (es ! (n - 1)) = Inr (v', i', tx))"
    using len nth n(3,4) s1 by (intro exI [of _ n]) (auto simp: not_less)
  define s3 where "s3 = fst (begin_tracking s2 v' i')"
  have s3: "Vmpp s3 = Vmpp s" "v_step s3 = v_step s"
    using same s1 by (simp_all add: s3_def begin_tracking_def Let_def kwrite_def
        write_to_console_def)
  have run: "walk_and_track s (e # es) = track s3 (fabs (fmul v' i')) 1 [e1]"
    using assms(1) w by (simp add: walk_and_track_def begin_tracking_def Let_def s1_def s3_def)
  with assms(3) obtain s4 where
    tc: "track_cycle s3 (fabs (fmul v' i')) 1 e1 = Inr (s4, previous_power, direction)"
    and sF: "sF = kwrite s4 (SourceVoltage4f (Vmpp s4))"
    by (auto simp: shutdown_def Let_def split: sum.splits prod.splits if_splits)
  from track_cycle_Inr [OF tc] obtain v1 i1 t1 s5 where
    r: "read3 e1 = Inr (v1, i1, t1)"
    and po: "(s4, previous_power, direction)
               = perturb_observe s5 (fabs (fmul v' i')) 1 (fabs (fmul v1 i1))"
    and s5: "Vmpp s5 = Vmpp s3" "v_step s5 = v_step s3" by blast
  from po s5 s3 have "direction = (if fabs (fmul v1 i1) > fabs (fmul v' i') then 1 else - 1)
      \<and> previous_power = fabs (fmul v1 i1)
      \<and> Vmpp s4 = fadd (Vmpp s) (fmul (of_int direction) (v_step s))"
    by (auto simp: perturb_observe_def Let_def split: if_splits)
  moreover have "Vmpp sF = Vmpp s4" by (simp add: sF kwrite_def)
  ultimately have part1: "\<exists>v1 i1 t1. read3 e1 = Inr (v1, i1, t1)
            \<and> direction = (if fabs (fmul v1 i1) > fabs (fmul v' i') then 1 else - 1)
            \<and> previous_power = fabs (fmul v1 i1)
            \<and> Vmpp sF = fadd (Vmpp s) (fmul (of_int direction) (v_step s))"
    using r by auto
  from part1 part2 show ?thesis by (rule conjI)
qed

theorem C10_previous_power_witness:
  "\<exists>sF previous_power direction v' i'.
     walk_and_track session_w (Response [0, 0, 0] # events_w)
       = AwaitTrack sF previous_power direction
     \<and> read3 (events_w ! 2) = Inr (v', i', 3)
     \<and> direction = (if fabs (fmul (5 / 8) 0) > fabs (fmul v' i') then 1 else - 1)"
proof -
  define s1 where "s1 = (kwrites session_w [Fixed '':source:voltage:mode fixed'',
                                            Fixed '':trigger:count 1''])\<lparr>start_time := 0\<rparr>"
  have f: "Vmpp s1 = 5 / 8" "v_step s1 = 1 / 4" "device_area s1 = 1" "start_time s1 = 0"
    "total_tracking_time s1 = 10"
    by (simp_all add: s1_def kwrites_def kwrite_def session_w_def session0_def)
  have la: "leaves_after 0 (v_step s1) (Vmpp s1) 3"
    unfolding f by (simp add: leaves_after_numeral float_defs)
  have ar: "device_area s1 \<noteq> 0" unfolding f by simp
  have ev: "\<forall>e \<in> set (take 3 events_w). in_time s1 e"
    by (simp add: events_w_def f float_defs)
  have le: "3 \<le> length events_w" by (simp add: events_w_def)
  have d: "drop 3 events_w = [Response [5 / 8, 0, 4]]" by (simp add: events_w_def)
  from walk_in_leaves [OF la ar le ev, of 0 0] obtain s2 v' i' where
    w: "walk_in s1 0 0 0 events_w = Inr (s2, v', i', [Response [5 / 8, 0, 4]])"
    unfolding d by blast
  from walk_in_exit [OF w] have s2: "start_time s2 = 0" "total_tracking_time s2 = 10"
    "device_area s2 = 1" by (simp_all add: f)
  define s3 where "s3 = fst (begin_tracking s2 v' i')"
  have s3: "start_time s3 = 0" "total_tracking_time s3 = 10" "device_area s3 = 1"
    using s2 by (simp_all add: s3_def begin_tracking_def Let_def kwrite_def write_to_console_def)
  have it: "in_time s3 (Response [5 / 8, 0, 4])" by (simp add: s3 float_defs)
  have ar3: "device_area s3 \<noteq> 0" by (simp add: s3)
  from track_cycle_ok [OF it ar3, of "fabs (fmul v' i')" 1] obtain s4 pp d' where
    tc: "track_cycle s3 (fabs (fmul v' i')) 1 (Response [5 / 8, 0, 4]) = Inr (s4, pp, d')"
    by blast
  have r: "read3 (Response [0, 0, 0]) = Inr (0, 0, 0)" by (simp add: read3_def)
  have run: "walk_and_track session_w (Response [0, 0, 0] # events_w)
               = AwaitTrack (kwrite s4 (SourceVoltage4f (Vmpp s4))) pp d'"
    using r w tc
    by (simp add: walk_and_track_def begin_tracking_def Let_def s1_def s3_def)
  from C10_previous_power [OF r w [unfolded s1_def] run] obtain v1 i1 t1 n where
    a: "read3 (Response [5 / 8, 0, 4]) = Inr (v1, i1, t1)"
      "d' = (if fabs (fmul v1 i1) > fabs (fmul v' i') then 1 else - 1)"
    and b: "Suc n = length events_w"
      "if n = 0 then v' = 0 \<and> i' = 0
         \<and> written (K2400 s2)
             = written (K2400 session_w) @ [Fixed '':source:voltage:mode fixed'',
                                            Fixed '':trigger:count 1'']
       else \<exists>tx. read3 (events_w ! (n - 1)) = Inr (v', i', tx)"
    by blast
  from a(1) have v1: "v1 = 5 / 8" "i1 = 0" by (simp_all add: read3_def)
  from b(1) have n: "n = 3" by (simp add: events_w_def)
  with b(2) obtain tx where "read3 (events_w ! 2) = Inr (v', i', tx)" by auto
  moreover from this have "tx = 3" by (simp add: events_w_def read3_def)
  ultimately have "read3 (events_w ! 2) = Inr (v', i', 3)" by simp
  with run a(2) v1 show ?thesis by blast
qed

text \<open>
  C10, as the specification states it: the first reading is taken before any source
  voltage was set. In the run of \<open>env_neg\<close> the walk-in runs no cycle and \<open>previous_power\<close>
  is \<open>abs(v*i)\<close> of the first reading; but when the program blocks in that reading, the
  sweep has already written \<open>:source:voltage 0.5000\<close> and \<open>:output on\<close>.
\<close>

theorem C10_previous_power_counterexample:
  "(case main args0 env_neg of
      AwaitTrack s previous_power direction \<Rightarrow>
        Vmpp s \<le> 0 \<and> v_data s = [] \<and> log_file s = []
        \<and> previous_power = fabs (fmul (- (1 / 1024)) (- (1 / 64)))
    | _ \<Rightarrow> False)
   \<and> (case main args0 (env_neg\<lparr>events := []\<rparr>) of
        AwaitStart s \<Rightarrow>
          SourceVoltage4f (1 / 2) \<in> set (written (K2400 s))
          \<and> output_on False (written (K2400 s))
      | _ \<Rightarrow> False)"
  by code_simp

end
